theory Spec2Isabelle
  imports Complex_Main "HOL-Library.Sublist"
begin

section \<open>Python values\<close>

text \<open>
  The envelopes, payloads and metadata of \<^verbatim>\<open>chat.py\<close> are typed \<^verbatim>\<open>Any\<close> and
  \<^verbatim>\<open>dict[str, Any]\<close>: decoded JSON. A dict is an association list read with
  \<open>map_of\<close> (the first binding of a key), a float is a real number (no NaN).
\<close>

datatype json =
    JNull
  | JBool bool
  | JInt int
  | JFloat real
  | JStr string
  | JList "json list"
  | JDict "(string \<times> json) list"

text \<open>Python truth value testing, as \<^verbatim>\<open>if x\<close>, \<^verbatim>\<open>x and y\<close>, \<^verbatim>\<open>not x\<close> use it.\<close>

fun truthy :: "json \<Rightarrow> bool" where
  "truthy JNull = False"
| "truthy (JBool b) = b"
| "truthy (JInt i) = (i \<noteq> 0)"
| "truthy (JFloat x) = (x \<noteq> 0)"
| "truthy (JStr s) = (s \<noteq> [])"
| "truthy (JList xs) = (xs \<noteq> [])"
| "truthy (JDict kv) = (kv \<noteq> [])"

text \<open>\<^verbatim>\<open>d.get(k, default)\<close>; \<^verbatim>\<open>d.get(k)\<close> is \<open>dict_get d k JNull\<close>.\<close>

type_synonym dict = "(string \<times> json) list"

definition dict_get :: "dict \<Rightarrow> string \<Rightarrow> json \<Rightarrow> json" where
  "dict_get d k dflt = (case map_of d k of None \<Rightarrow> dflt | Some v \<Rightarrow> v)"

text \<open>\<^verbatim>\<open>isinstance(x, dict)\<close>.\<close>

fun is_dict :: "json \<Rightarrow> bool" where
  "is_dict (JDict kv) = True"
| "is_dict _ = False"

text \<open>The dict that a value is, read only where \<open>is_dict\<close> has been tested.\<close>

fun as_dict :: "json \<Rightarrow> dict" where
  "as_dict (JDict kv) = kv"
| "as_dict _ = []"

text \<open>
  The exceptions that occur. \<^verbatim>\<open>except Exception\<close> matches the instances of
  \<^verbatim>\<open>Exception\<close>; \<^verbatim>\<open>GeneratorExit\<close>, \<^verbatim>\<open>asyncio.CancelledError\<close>,
  \<^verbatim>\<open>KeyboardInterrupt\<close> and \<^verbatim>\<open>SystemExit\<close> derive from \<^verbatim>\<open>BaseException\<close> only.
\<close>

datatype exc =
    GeneratorExit
  | CancelledError
  | KeyboardInterrupt
  | SystemExit
  | TimeoutError
  | AttributeError
  | TypeError
  | ValueError
  | KeyError
  | OtherException string

fun is_Exception :: "exc \<Rightarrow> bool" where
  "is_Exception GeneratorExit = False"
| "is_Exception CancelledError = False"
| "is_Exception KeyboardInterrupt = False"
| "is_Exception SystemExit = False"
| "is_Exception _ = True"

section \<open>Constants and events of the chat engine\<close>

text \<open>
  Modelled from the spec: the enumeration \<^verbatim>\<open>S2CEvent\<close> of
  \<^verbatim>\<open>pine_assistant/models/events.py\<close>, which is not among the sources. The spec calls
  the event type a string tag of an implementation-defined enumeration shared with the
  wire protocol; its members named by \<^verbatim>\<open>chat.py\<close> and its tests are the constructors,
  pairwise distinct as the members of an enumeration are, and \<open>OTHER\<close> stands for
  every other tag the transport may pass to the observer.
\<close>

datatype S2CEvent =
    SESSION_TEXT
  | SESSION_TEXT_PART
  | SESSION_FORM_TO_USER
  | SESSION_ASK_FOR_LOCATION
  | SESSION_TASK_READY
  | SESSION_TASK_FINISHED
  | SESSION_INTERACTIVE_AUTH_CONFIRMATION
  | SESSION_THREE_WAY_CALL
  | SESSION_REWARD
  | SESSION_INPUT_STATE
  | SESSION_STATE
  | SESSION_WORK_LOG
  | SESSION_WORK_LOG_PART
  | OTHER string

definition TERMINAL_STATES :: "string set" where
  "TERMINAL_STATES = {''task_finished'', ''task_cancelled'', ''task_stale''}"

definition SUBSTANTIVE_EVENTS :: "S2CEvent set" where
  "SUBSTANTIVE_EVENTS =
     {SESSION_TEXT, SESSION_TEXT_PART,
      SESSION_FORM_TO_USER,
      SESSION_ASK_FOR_LOCATION, SESSION_TASK_READY,
      SESSION_TASK_FINISHED, SESSION_INTERACTIVE_AUTH_CONFIRMATION,
      SESSION_THREE_WAY_CALL, SESSION_REWARD}"

text \<open>
  \<^verbatim>\<open>x in TERMINAL_STATES\<close>: membership in a set of strings hashes \<open>x\<close>, so a list
  or a dict raises \<^verbatim>\<open>TypeError\<close> (unhashable), and a value that is not a string is
  not a member.
\<close>

fun in_TERMINAL_STATES :: "json \<Rightarrow> exc + bool" where
  "in_TERMINAL_STATES (JStr s) = Inr (s \<in> TERMINAL_STATES)"
| "in_TERMINAL_STATES (JList xs) = Inl TypeError"
| "in_TERMINAL_STATES (JDict kv) = Inl TypeError"
| "in_TERMINAL_STATES _ = Inr False"

text \<open>\<^verbatim>\<open>class ChatEvent\<close>, with the defaults \<^verbatim>\<open>message_id=None\<close>, \<^verbatim>\<open>metadata=None\<close>.\<close>

record ChatEvent =
  type :: S2CEvent
  session_id :: string
  message_id :: json
  data :: json
  metadata :: json

section \<open>The stale-event filter\<close>

text \<open>
  A \<^verbatim>\<open>datetime\<close> is naive or aware; an aware one is an instant, here microseconds since
  the epoch in UTC. \<^verbatim>\<open>a < b\<close> compares two naive or two aware values and raises
  \<^verbatim>\<open>TypeError\<close> on a naive and an aware one.
\<close>

datatype datetime = Naive int | Aware int

fun datetime_lt :: "datetime \<Rightarrow> datetime \<Rightarrow> exc + bool" where
  "datetime_lt (Naive a) (Naive b) = Inr (a < b)"
| "datetime_lt (Aware a) (Aware b) = Inr (a < b)"
| "datetime_lt _ _ = Inl TypeError"

text \<open>\<^verbatim>\<open>s.replace("Z", "+00:00")\<close>: every occurrence of the character is replaced.\<close>

definition replace_Z :: "string \<Rightarrow> string" where
  "replace_Z s = concat (map (\<lambda>c. if c = CHR ''Z'' then ''+00:00'' else [c]) s)"

text \<open>
  \<^verbatim>\<open>ChatEngine._is_stale_event\<close>. The standard library's
  \<^verbatim>\<open>datetime.fromisoformat\<close> is the parameter \<open>fromisoformat\<close>: \<open>None\<close> where it
  raises \<^verbatim>\<open>ValueError\<close> on a string. Of the values of \<^verbatim>\<open>ts_str\<close> that are
  truthy, only a string has a method \<^verbatim>\<open>replace\<close>; on the others the attribute lookup
  raises \<^verbatim>\<open>AttributeError\<close>, which the \<^verbatim>\<open>except (ValueError, TypeError)\<close>
  clause does not match.
\<close>

definition is_stale_event ::
    "(string \<Rightarrow> datetime option) \<Rightarrow> ChatEvent \<Rightarrow> datetime \<Rightarrow> exc + bool" where
  "is_stale_event fromisoformat event cutoff =
     (let meta = metadata event in
      case meta of
        JDict kv \<Rightarrow>
          (let ts_str = dict_get kv ''timestamp'' JNull in
           if \<not> truthy ts_str then Inr False
           else
             (case ts_str of
                JStr s \<Rightarrow>
                  (case fromisoformat (replace_Z s) of
                     None \<Rightarrow> Inr False
                   | Some event_ts \<Rightarrow>
                       (case datetime_lt event_ts cutoff of
                          Inl e \<Rightarrow> Inr False
                        | Inr b \<Rightarrow> Inr b))
              | _ \<Rightarrow> Inl AttributeError))
      | _ \<Rightarrow> Inr False)"

section \<open>The listener's state and the inbound observer\<close>

text \<open>
  The locals of \<^verbatim>\<open>_listen\<close> that the closure \<^verbatim>\<open>handler\<close> shares with the loop:
  the queue (\<open>None\<close> is the stop sentinel), \<^verbatim>\<open>done\<close> (here \<open>done_flag\<close>:
  the source's name is a keyword of Isabelle) and \<^verbatim>\<open>received_agent_response\<close>.
\<close>

record lstate =
  queue :: "ChatEvent option list"
  done_flag :: bool
  received_agent_response :: bool

definition init_lstate :: lstate where
  "init_lstate = \<lparr>queue = [], done_flag = False, received_agent_response = False\<rparr>"

text \<open>\<^verbatim>\<open>queue.put_nowait(x)\<close> on the unbounded queue.\<close>

definition put_nowait :: "ChatEvent option \<Rightarrow> lstate \<Rightarrow> lstate" where
  "put_nowait x st = st\<lparr>queue := queue st @ [x]\<rparr>"

text \<open>Lines 172-173 of \<^verbatim>\<open>handler\<close>: a substantive event sets the flag.\<close>

definition on_substantive :: "S2CEvent \<Rightarrow> lstate \<Rightarrow> lstate" where
  "on_substantive event st =
     (if event \<in> SUBSTANTIVE_EVENTS then st\<lparr>received_agent_response := True\<rparr> else st)"

text \<open>
  Lines 174-177: the input-state signal; \<open>d\<close> is \<^verbatim>\<open>payload.get("data")\<close>.
\<close>

definition on_input_state :: "S2CEvent \<Rightarrow> json \<Rightarrow> lstate \<Rightarrow> lstate" where
  "on_input_state event d st =
     (if event = SESSION_INPUT_STATE \<and> is_dict d then
        (if dict_get (as_dict d) ''content'' JNull = JStr ''waiting_input''
            \<and> received_agent_response st
         then put_nowait None (st\<lparr>done_flag := True\<rparr>)
         else st)
      else st)"

text \<open>
  Lines 178-182: the terminal signal. The membership test raises on an unhashable
  state, out of the handler.
\<close>

definition on_session_state :: "S2CEvent \<Rightarrow> json \<Rightarrow> lstate \<Rightarrow> lstate \<times> exc option" where
  "on_session_state event d st =
     (if event = SESSION_STATE \<and> is_dict d then
        (let state = dict_get (as_dict d) ''content'' (JStr [])
         in case in_TERMINAL_STATES state of
              Inl e \<Rightarrow> (st, Some e)
            | Inr b \<Rightarrow> (if b then put_nowait None (st\<lparr>done_flag := True\<rparr>) else st, None))
      else (st, None))"

text \<open>
  \<^verbatim>\<open>handler(event, raw)\<close>, the observer registered with the transport. It returns the
  state it leaves and the exception it raises into the transport's dispatch, if any:
  \<^verbatim>\<open>payload.get\<close> on a payload that is not a dict raises before anything is
  changed, the membership test of an unhashable state raises after the event has been
  enqueued.
\<close>

definition handler ::
    "string \<Rightarrow> S2CEvent \<Rightarrow> dict \<Rightarrow> lstate \<Rightarrow> lstate \<times> exc option" where
  "handler sid event raw st =
     (let payload = dict_get raw ''payload'' (JDict []) in
      if \<not> is_dict payload then (st, Some AttributeError)
      else
        (let p_session_id = dict_get (as_dict payload) ''session_id'' JNull in
         if truthy p_session_id \<and> p_session_id \<noteq> JStr sid then (st, None)
         else
           (let st1 = put_nowait
                  (Some \<lparr>type = event, session_id = sid,
                         message_id = dict_get (as_dict payload) ''message_id'' JNull,
                         data = dict_get (as_dict payload) ''data'' JNull,
                         metadata = dict_get raw ''metadata'' JNull\<rparr>) st;
                st2 = on_substantive event st1;
                st3 = on_input_state event (dict_get (as_dict payload) ''data'' JNull) st2
            in on_session_state event (dict_get (as_dict payload) ''data'' JNull) st3)))"

section \<open>The listener as a resumable computation\<close>

text \<open>
  \<^verbatim>\<open>ChatEngine._listen\<close> is an asynchronous generator: it runs until it suspends, at an
  \<^verbatim>\<open>await\<close> or at a \<^verbatim>\<open>yield\<close>, and is resumed later. While it is suspended the
  transport may call the observer any number of times. A \<open>tick\<close> is one suspension
  as the surroundings decide it: the observer calls made meanwhile, what the awaited
  call gives if the generator is at an \<^verbatim>\<open>await\<close> (a value, or an exception raised
  into it: a failure of the query, a cancellation of the task), and what the consumer
  does if it is at a \<^verbatim>\<open>yield\<close> (asks for the next item, or closes the generator,
  which raises \<^verbatim>\<open>GeneratorExit\<close> there).
\<close>

datatype demand = Next | Close

record tick =
  arrivals :: "(S2CEvent \<times> dict) list"
  outcome :: "exc + json"
  consumer :: demand

text \<open>
  The fields of \<^verbatim>\<open>ChatEngine\<close> that \<^verbatim>\<open>_listen\<close> reads. \<open>check_session_state\<close>
  says whether the collaborator is configured; what a call of it gives is the
  \<open>outcome\<close> of the tick that resumes the generator.
\<close>

record config =
  check_session_state :: bool
  idle_timeout_s :: real
  response_idle_timeout_s :: real

text \<open>
  What an observer of the run sees, in order. The four \<^verbatim>\<open>yield\<close> statements are the
  sites \<open>Precheck\<close> (line 150), \<open>Repoll\<close> (line 198), \<open>Loop\<close> (line 205) and
  \<open>Drain\<close> (line 209); a \<open>Yield\<close> carries the value of the yielded expression,
  which for the last two is the variable \<^verbatim>\<open>evt\<close> of type \<^verbatim>\<open>Optional[ChatEvent]\<close>.
  \<open>Wait\<close> carries the timeout handed to \<^verbatim>\<open>asyncio.wait_for\<close>.
\<close>

datatype site = Precheck | Repoll | Loop | Drain

datatype action =
    Register
  | Deregister
  | Query
  | Wait real
  | Call S2CEvent dict
  | Yield site "ChatEvent option"

datatype point =
    At_precheck_query
  | At_precheck_yield
  | At_wait
  | At_repoll_query
  | At_repoll_yield
  | At_loop_yield
  | At_drain_yield

datatype status = Returned | Raised exc

datatype gen = Suspended point lstate | Finished status

text \<open>The observer calls of one suspension, in the order of arrival.\<close>

fun deliver :: "string \<Rightarrow> (S2CEvent \<times> dict) list \<Rightarrow> lstate \<Rightarrow> lstate" where
  "deliver sid [] st = st"
| "deliver sid ((event, raw) # ds) st = deliver sid ds (fst (handler sid event raw st))"

definition calls :: "(S2CEvent \<times> dict) list \<Rightarrow> action list" where
  "calls ds = map (\<lambda>(event, raw). Call event raw) ds"

definition after :: "action list \<Rightarrow> action list \<times> gen \<Rightarrow> action list \<times> gen" where
  "after acts r = (acts @ fst r, snd r)"

text \<open>\<^verbatim>\<open>d[k]\<close>.\<close>

definition dict_item :: "dict \<Rightarrow> string \<Rightarrow> exc + json" where
  "dict_item d k = (case map_of d k of None \<Rightarrow> Inl KeyError | Some v \<Rightarrow> Inr v)"

text \<open>
  Lines 149-150 and 197-198 up to the \<^verbatim>\<open>yield\<close>: from the answer of the state query,
  the synthesized event to yield, if the state is terminal.
\<close>

definition terminal_event :: "string \<Rightarrow> json \<Rightarrow> exc + ChatEvent option" where
  "terminal_event sid session =
     (case session of
        JDict kv \<Rightarrow>
          (case in_TERMINAL_STATES (dict_get kv ''state'' JNull) of
             Inl e \<Rightarrow> Inl e
           | Inr False \<Rightarrow> Inr None
           | Inr True \<Rightarrow>
               (case dict_item kv ''state'' of
                  Inl e \<Rightarrow> Inl e
                | Inr state \<Rightarrow>
                    Inr (Some \<lparr>type = SESSION_STATE, session_id = sid, message_id = JNull,
                               data = JDict [(''content'', state)], metadata = JNull\<rparr>)))
      | _ \<Rightarrow> Inl AttributeError)"

text \<open>
  Lines 206-211: the drain loop, up to its next \<^verbatim>\<open>yield\<close> or through the
  \<^verbatim>\<open>finally\<close> clause to the end of the generator.
\<close>

function drain :: "lstate \<Rightarrow> action list \<times> gen" where
  "drain st =
     (case queue st of
        [] \<Rightarrow> ([Deregister], Finished Returned)
      | evt # q \<Rightarrow>
          (let st' = st\<lparr>queue := q\<rparr> in
           if evt \<noteq> None then ([Yield Drain evt], Suspended At_drain_yield st')
           else drain st'))"
  by pat_completeness auto

termination
  by (relation "measure (\<lambda>st. length (queue st))") auto

declare drain.simps [simp del]

text \<open>
  Lines 187-190: the test of the \<^verbatim>\<open>while\<close> loop, then the timed wait on the queue,
  or the drain loop when \<^verbatim>\<open>done\<close> is set.
\<close>

definition loop_top :: "config \<Rightarrow> lstate \<Rightarrow> action list \<times> gen" where
  "loop_top cfg st =
     (if \<not> done_flag st then
        (let timeout = (if received_agent_response st then response_idle_timeout_s cfg
                        else idle_timeout_s cfg)
         in ([Wait timeout], Suspended At_wait st))
      else drain st)"

text \<open>Lines 155-187: the fresh state, the registration of the observer, the loop.\<close>

definition activate :: "config \<Rightarrow> action list \<times> gen" where
  "activate cfg = after [Register] (loop_top cfg init_lstate)"

text \<open>The \<^verbatim>\<open>finally\<close> clause on an exception that leaves the \<^verbatim>\<open>try\<close> block.\<close>

definition leave :: "exc \<Rightarrow> action list \<times> gen" where
  "leave e = ([Deregister], Finished (Raised e))"

text \<open>
  One resumption: from the point where the generator is suspended to its next
  suspension or its end. During the precheck no observer is registered, so the
  arrivals of the tick reach no handler of this call. At the timed wait of line 190 a
  value as outcome means that the wait ended by itself: with the first item of the
  queue if the arrivals left one, with \<^verbatim>\<open>asyncio.TimeoutError\<close> otherwise.
\<close>

fun resume :: "config \<Rightarrow> string \<Rightarrow> point \<Rightarrow> lstate \<Rightarrow> tick \<Rightarrow> action list \<times> gen" where
  "resume cfg sid At_precheck_query st t =
     (case (case outcome t of Inl e \<Rightarrow> Inl e | Inr session \<Rightarrow> terminal_event sid session) of
        Inl e \<Rightarrow> if is_Exception e then activate cfg else ([], Finished (Raised e))
      | Inr None \<Rightarrow> activate cfg
      | Inr (Some ev) \<Rightarrow> ([Yield Precheck (Some ev)], Suspended At_precheck_yield st))"
| "resume cfg sid At_precheck_yield st t =
     (case consumer t of
        Next \<Rightarrow> ([], Finished Returned)
      | Close \<Rightarrow> ([], Finished (Raised GeneratorExit)))"
| "resume cfg sid At_wait st t =
     (let st1 = deliver sid (arrivals t) st in
      after (calls (arrivals t))
        (case (case outcome t of
                 Inl e \<Rightarrow> Inl e
               | Inr v \<Rightarrow> (case queue st1 of [] \<Rightarrow> Inl TimeoutError | evt # q \<Rightarrow> Inr (evt, q))) of
           Inl e \<Rightarrow>
             if e = TimeoutError then
               (if received_agent_response st1 then drain st1
                else if check_session_state cfg then ([Query], Suspended At_repoll_query st1)
                else loop_top cfg st1)
             else leave e
         | Inr (evt, q) \<Rightarrow>
             (let st2 = st1\<lparr>queue := q\<rparr> in
              if evt = None then drain st2
              else ([Yield Loop evt], Suspended At_loop_yield st2))))"
| "resume cfg sid At_repoll_query st t =
     (let st1 = deliver sid (arrivals t) st in
      after (calls (arrivals t))
        (case (case outcome t of Inl e \<Rightarrow> Inl e | Inr session \<Rightarrow> terminal_event sid session) of
           Inl e \<Rightarrow> if is_Exception e then loop_top cfg st1 else leave e
         | Inr None \<Rightarrow> loop_top cfg st1
         | Inr (Some ev) \<Rightarrow> ([Yield Repoll (Some ev)], Suspended At_repoll_yield st1)))"
| "resume cfg sid At_repoll_yield st t =
     (let st1 = deliver sid (arrivals t) st in
      after (calls (arrivals t))
        (case consumer t of Next \<Rightarrow> drain st1 | Close \<Rightarrow> leave GeneratorExit))"
| "resume cfg sid At_loop_yield st t =
     (let st1 = deliver sid (arrivals t) st in
      after (calls (arrivals t))
        (case consumer t of Next \<Rightarrow> loop_top cfg st1 | Close \<Rightarrow> leave GeneratorExit))"
| "resume cfg sid At_drain_yield st t =
     (let st1 = deliver sid (arrivals t) st in
      after (calls (arrivals t))
        (case consumer t of Next \<Rightarrow> drain st1 | Close \<Rightarrow> leave GeneratorExit))"

text \<open>
  A run over the ticks of a script. When the script ends before the generator does, the
  generator stays suspended where it is.
\<close>

fun run :: "config \<Rightarrow> string \<Rightarrow> gen \<Rightarrow> tick list \<Rightarrow> action list \<times> gen" where
  "run cfg sid (Finished s) ts = ([], Finished s)"
| "run cfg sid (Suspended p st) [] = ([], Suspended p st)"
| "run cfg sid (Suspended p st) (t # ts) =
     (let r = resume cfg sid p st t in after (fst r) (run cfg sid (snd r) ts))"

text \<open>
  \<^verbatim>\<open>_listen(session_id, _skip_state_precheck)\<close>: lines 146-148 up to the first
  suspension, then the run.
\<close>

definition listen :: "config \<Rightarrow> string \<Rightarrow> bool \<Rightarrow> tick list \<Rightarrow> action list \<times> gen" where
  "listen cfg sid skip_state_precheck ts =
     (let r = (if \<not> skip_state_precheck \<and> check_session_state cfg
               then ([Query], Suspended At_precheck_query init_lstate)
               else activate cfg)
      in after (fst r) (run cfg sid (snd r) ts))"

text \<open>What the consumer receives, and the part of it that was taken from the queue.\<close>

fun yielded :: "action list \<Rightarrow> ChatEvent option list" where
  "yielded [] = []"
| "yielded (Yield s e # acts) = e # yielded acts"
| "yielded (a # acts) = yielded acts"

fun queue_yields :: "action list \<Rightarrow> ChatEvent option list" where
  "queue_yields [] = []"
| "queue_yields (Yield Loop e # acts) = e # queue_yields acts"
| "queue_yields (Yield Drain e # acts) = e # queue_yields acts"
| "queue_yields (a # acts) = queue_yields acts"

section \<open>The send-and-listen operation\<close>

text \<open>
  \<^verbatim>\<open>ChatEngine.chat\<close>, lines 106-109: the events of \<^verbatim>\<open>_listen\<close> are passed on
  unless stale, and an exception of the stale test ends the generator. The result is
  what \<^verbatim>\<open>chat\<close> yields and the exception that leaves it, if any. Reading
  \<^verbatim>\<open>event.metadata\<close> of \<^verbatim>\<open>None\<close> would raise \<^verbatim>\<open>AttributeError\<close>.
\<close>

fun chat_filter ::
    "(string \<Rightarrow> datetime option) \<Rightarrow> datetime \<Rightarrow> ChatEvent option list \<Rightarrow> ChatEvent list \<times> exc option" where
  "chat_filter fromisoformat cutoff [] = ([], None)"
| "chat_filter fromisoformat cutoff (None # evs) = ([], Some AttributeError)"
| "chat_filter fromisoformat cutoff (Some event # evs) =
     (case is_stale_event fromisoformat event cutoff of
        Inl e \<Rightarrow> ([], Some e)
      | Inr True \<Rightarrow> chat_filter fromisoformat cutoff evs
      | Inr False \<Rightarrow>
          (let r = chat_filter fromisoformat cutoff evs in (event # fst r, snd r)))"

text \<open>
  Line 100 and lines 106-109, for a consumer that takes every event: \<open>now\<close> is
  \<^verbatim>\<open>datetime.now(timezone.utc)\<close> in microseconds, the cutoff five seconds earlier, and
  the listener runs with \<^verbatim>\<open>_skip_state_precheck=True\<close>.
\<close>

definition chat ::
    "config \<Rightarrow> string \<Rightarrow> (string \<Rightarrow> datetime option) \<Rightarrow> int \<Rightarrow> tick list \<Rightarrow> ChatEvent list \<times> exc option" where
  "chat cfg sid fromisoformat now ts =
     (let cutoff = Aware (now - 5 * 1000000)
      in chat_filter fromisoformat cutoff (yielded (fst (listen cfg sid True ts))))"

section \<open>Notions the properties are stated with\<close>

text \<open>
  The payload of an envelope (line 161), its session id (line 162), and whether the
  session test of line 163 lets the envelope through: \<open>foreign\<close> envelopes are
  the ones it returns on, \<open>accepts\<close> the ones that reach line 166.
\<close>

definition payload_of :: "dict \<Rightarrow> json" where
  "payload_of raw = dict_get raw ''payload'' (JDict [])"

definition envelope_session_id :: "dict \<Rightarrow> json" where
  "envelope_session_id raw = dict_get (as_dict (payload_of raw)) ''session_id'' JNull"

definition foreign :: "string \<Rightarrow> dict \<Rightarrow> bool" where
  "foreign sid raw =
     (is_dict (payload_of raw) \<and> truthy (envelope_session_id raw)
      \<and> envelope_session_id raw \<noteq> JStr sid)"

definition accepts :: "string \<Rightarrow> dict \<Rightarrow> bool" where
  "accepts sid raw = (is_dict (payload_of raw) \<and> \<not> foreign sid raw)"

text \<open>The event of lines 166-171 for an envelope.\<close>

definition event_of :: "string \<Rightarrow> S2CEvent \<Rightarrow> dict \<Rightarrow> ChatEvent" where
  "event_of sid event raw =
     \<lparr>type = event, session_id = sid,
      message_id = dict_get (as_dict (payload_of raw)) ''message_id'' JNull,
      data = dict_get (as_dict (payload_of raw)) ''data'' JNull,
      metadata = dict_get raw ''metadata'' JNull\<rparr>"

text \<open>The events that a sequence of observer calls enqueues, in the order of the calls.\<close>

definition accepted :: "string \<Rightarrow> (S2CEvent \<times> dict) list \<Rightarrow> ChatEvent option list" where
  "accepted sid ds =
     map (\<lambda>(event, raw). Some (event_of sid event raw))
       (filter (\<lambda>(event, raw). accepts sid raw) ds)"

text \<open>
  The tests of lines 174-175 and 178-180 on the payload's data: a dict whose content is
  the string \<^verbatim>\<open>waiting_input\<close>, a dict whose content is a terminal state.
\<close>

definition data_of :: "dict \<Rightarrow> json" where
  "data_of raw = dict_get (as_dict (payload_of raw)) ''data'' JNull"

definition is_waiting_input :: "dict \<Rightarrow> bool" where
  "is_waiting_input raw =
     (is_dict (data_of raw)
      \<and> dict_get (as_dict (data_of raw)) ''content'' JNull = JStr ''waiting_input'')"

definition is_terminal_state :: "dict \<Rightarrow> bool" where
  "is_terminal_state raw =
     (is_dict (data_of raw)
      \<and> in_TERMINAL_STATES (dict_get (as_dict (data_of raw)) ''content'' (JStr [])) = Inr True)"

text \<open>The real events of a queue, without the stop sentinels.\<close>

definition reals :: "ChatEvent option list \<Rightarrow> ChatEvent option list" where
  "reals q = filter (\<lambda>x. x \<noteq> None) q"

text \<open>The observer calls of a trace.\<close>

fun call_args :: "action list \<Rightarrow> (S2CEvent \<times> dict) list" where
  "call_args [] = []"
| "call_args (Call event raw # acts) = (event, raw) # call_args acts"
| "call_args (a # acts) = call_args acts"

text \<open>
  The deregistrations a generator still owes, and the registrations it may still make:
  the observer is registered from the end of the precheck on.
\<close>

fun active :: "point \<Rightarrow> bool" where
  "active At_precheck_query = False"
| "active At_precheck_yield = False"
| "active _ = True"



text \<open>
  A bound on the resumptions that a registered generator whose \<^verbatim>\<open>done\<close> is set
  still needs before the drain loop, from each point.
\<close>

fun rank :: "point \<Rightarrow> nat" where
  "rank At_wait = 3"
| "rank At_repoll_query = 2"
| "rank _ = 1"

text \<open>
  The resumptions that may pass at a point before the generator takes the next event
  off a queue that holds one, when nothing is raised and the consumer goes on.
\<close>

fun lag :: "point \<Rightarrow> nat" where
  "lag At_wait = 0"
| "lag At_repoll_query = 2"
| "lag _ = 1"

text \<open>The real events still in the queue of a generator.\<close>

fun pending :: "gen \<Rightarrow> ChatEvent option list" where
  "pending (Suspended p st) = reals (queue st)"
| "pending (Finished s) = []"

text \<open>A tick without the observer calls that the session test of line 163 returns on.\<close>

definition drop_foreign :: "string \<Rightarrow> tick \<Rightarrow> tick" where
  "drop_foreign sid t =
     t\<lparr>arrivals := filter (\<lambda>(event, raw). \<not> foreign sid raw) (arrivals t)\<rparr>"

text \<open>A tick in which nothing arrives, nothing is raised and the consumer goes on.\<close>

definition quiet :: "tick \<Rightarrow> bool" where
  "quiet t = (arrivals t = [] \<and> \<not> isl (outcome t) \<and> consumer t = Next)"

text \<open>
  The forms one resumption of a registered generator can take, from the state \<open>st\<close>
  that the arrivals of the tick leave and after the observer calls \<open>cs\<close>: what it
  does and where it stops. An exception leaves through the \<^verbatim>\<open>finally\<close> clause; a
  normal end finds no real event in the queue; a wait or a query leaves the state as it
  is; the re-poll yields a synthesized event of the requested session; a \<^verbatim>\<open>yield\<close>
  of the loop or of the drain takes the first real event off the queue.
\<close>

inductive shape :: "string \<Rightarrow> lstate \<Rightarrow> action list \<Rightarrow> action list \<times> gen \<Rightarrow> bool"
  for sid :: string and st :: lstate and cs :: "action list" where
  Raises: "shape sid st cs (cs @ [Deregister], Finished (Raised e))"
| Returns: "reals (queue st) = [] \<Longrightarrow> shape sid st cs (cs @ [Deregister], Finished Returned)"
| Waits: "shape sid st cs (cs @ [Wait x], Suspended At_wait st)"
| Asks: "shape sid st cs (cs @ [Query], Suspended At_repoll_query st)"
| Synth: "session_id ev = sid \<Longrightarrow>
    shape sid st cs (cs @ [Yield Repoll (Some ev)], Suspended At_repoll_yield st)"
| Pops: "s = Loop \<or> s = Drain \<Longrightarrow> active p \<Longrightarrow> reals (queue st) = Some e # reals q \<Longrightarrow>
    set q \<subseteq> set (queue st) \<Longrightarrow>
    shape sid st cs (cs @ [Yield s (Some e)], Suspended p (st\<lparr>queue := q\<rparr>))"

section \<open>The observer\<close>

lemmas notions = foreign_def accepts_def envelope_session_id_def payload_of_def data_of_def
  event_of_def is_waiting_input_def is_terminal_state_def

lemma put_nowait_simps [simp]:
  "queue (put_nowait x st) = queue st @ [x]"
  "done_flag (put_nowait x st) = done_flag st"
  "received_agent_response (put_nowait x st) = received_agent_response st"
  by (simp_all add: put_nowait_def)

lemma on_substantive_simps [simp]:
  "queue (on_substantive event st) = queue st"
  "done_flag (on_substantive event st) = done_flag st"
  "received_agent_response (on_substantive event st) =
     (received_agent_response st \<or> event \<in> SUBSTANTIVE_EVENTS)"
  by (simp_all add: on_substantive_def)

lemma on_input_state_simps [simp]:
  "queue (on_input_state event d st) =
     queue st @ (if event = SESSION_INPUT_STATE \<and> is_dict d
                    \<and> dict_get (as_dict d) ''content'' JNull = JStr ''waiting_input''
                    \<and> received_agent_response st then [None] else [])"
  "done_flag (on_input_state event d st) =
     (done_flag st \<or> event = SESSION_INPUT_STATE \<and> is_dict d
                    \<and> dict_get (as_dict d) ''content'' JNull = JStr ''waiting_input''
                    \<and> received_agent_response st)"
  "received_agent_response (on_input_state event d st) = received_agent_response st"
  by (auto simp: on_input_state_def)

lemma on_session_state_simps [simp]:
  "queue (fst (on_session_state event d st)) =
     queue st @ (if event = SESSION_STATE \<and> is_dict d
                    \<and> in_TERMINAL_STATES (dict_get (as_dict d) ''content'' (JStr [])) = Inr True
                 then [None] else [])"
  "done_flag (fst (on_session_state event d st)) =
     (done_flag st \<or> event = SESSION_STATE \<and> is_dict d
                    \<and> in_TERMINAL_STATES (dict_get (as_dict d) ''content'' (JStr [])) = Inr True)"
  "received_agent_response (fst (on_session_state event d st)) = received_agent_response st"
  by (auto simp: on_session_state_def Let_def split: sum.splits)

text \<open>What the observer does with an envelope that it rejects, and with one it accepts.\<close>

lemma handler_foreign: "foreign sid raw \<Longrightarrow> handler sid event raw st = (st, None)"
  by (simp add: notions handler_def)

lemma handler_no_payload:
  "\<not> is_dict (payload_of raw) \<Longrightarrow> handler sid event raw st = (st, Some AttributeError)"
  by (simp add: notions handler_def)

lemma handler_rejects: "\<not> accepts sid raw \<Longrightarrow> fst (handler sid event raw st) = st"
  by (auto simp: notions handler_def Let_def)

lemma handler_queue:
  "accepts sid raw \<Longrightarrow>
   queue (fst (handler sid event raw st)) =
     queue st @ [Some (event_of sid event raw)]
       @ (if event = SESSION_INPUT_STATE \<and> is_waiting_input raw
             \<and> received_agent_response st then [None] else [])
       @ (if event = SESSION_STATE \<and> is_terminal_state raw then [None] else [])"
  by (auto simp: notions handler_def Let_def SUBSTANTIVE_EVENTS_def)

lemma handler_done:
  "accepts sid raw \<Longrightarrow>
   done_flag (fst (handler sid event raw st)) =
     (done_flag st
      \<or> event = SESSION_INPUT_STATE \<and> is_waiting_input raw \<and> received_agent_response st
      \<or> event = SESSION_STATE \<and> is_terminal_state raw)"
  by (auto simp: notions handler_def Let_def SUBSTANTIVE_EVENTS_def)

lemma handler_received:
  "accepts sid raw \<Longrightarrow>
   received_agent_response (fst (handler sid event raw st)) =
     (received_agent_response st \<or> event \<in> SUBSTANTIVE_EVENTS)"
  by (auto simp: notions handler_def Let_def)

lemma handler_done_mono: "done_flag st \<Longrightarrow> done_flag (fst (handler sid event raw st))"
  by (cases "accepts sid raw") (simp_all add: handler_done handler_rejects)

lemma handler_received_mono:
  "received_agent_response st \<Longrightarrow> received_agent_response (fst (handler sid event raw st))"
  by (cases "accepts sid raw") (simp_all add: handler_received handler_rejects)

lemma handler_reals:
  "reals (queue (fst (handler sid event raw st))) = reals (queue st) @ accepted sid [(event, raw)]"
  by (cases "accepts sid raw") (simp_all add: handler_queue handler_rejects reals_def accepted_def)

lemma handler_session_ids:
  "\<forall>e. Some e \<in> set (queue st) \<longrightarrow> session_id e = sid \<Longrightarrow>
   \<forall>e. Some e \<in> set (queue (fst (handler sid event raw st))) \<longrightarrow> session_id e = sid"
  by (cases "accepts sid raw") (auto simp: handler_queue handler_rejects event_of_def)

lemma accepted_append: "accepted sid (xs @ ys) = accepted sid xs @ accepted sid ys"
  by (simp add: accepted_def)

lemma accepted_Cons: "accepted sid (d # ds) = accepted sid [d] @ accepted sid ds"
  by (simp add: accepted_def)

lemma deliver_append: "deliver sid (xs @ ys) st = deliver sid ys (deliver sid xs st)"
  by (induction xs arbitrary: st) auto

lemma deliver_reals: "reals (queue (deliver sid ds st)) = reals (queue st) @ accepted sid ds"
proof (induction ds arbitrary: st)
  case Nil
  show ?case by (simp add: accepted_def)
next
  case (Cons d ds)
  obtain event raw where d: "d = (event, raw)" by (cases d)
  show ?case
    using Cons.IH [of "fst (handler sid event raw st)"]
    by (simp add: d handler_reals accepted_Cons [of sid "(event, raw)" ds])
qed

lemma deliver_done_mono: "done_flag st \<Longrightarrow> done_flag (deliver sid ds st)"
  by (induction ds arbitrary: st) (auto simp: handler_done_mono)

lemma deliver_received_mono:
  "received_agent_response st \<Longrightarrow> received_agent_response (deliver sid ds st)"
  by (induction ds arbitrary: st) (auto simp: handler_received_mono)

lemma deliver_session_ids:
  "\<forall>e. Some e \<in> set (queue st) \<longrightarrow> session_id e = sid \<Longrightarrow>
   \<forall>e. Some e \<in> set (queue (deliver sid ds st)) \<longrightarrow> session_id e = sid"
proof (induction ds arbitrary: st)
  case Nil
  then show ?case by simp
next
  case (Cons d ds)
  obtain event raw where d: "d = (event, raw)" by (cases d)
  show ?case
    using Cons.IH [OF handler_session_ids [OF Cons.prems, of event raw]] by (simp add: d)
qed

lemma deliver_drop_foreign:
  "deliver sid (filter (\<lambda>(event, raw). \<not> foreign sid raw) ds) st = deliver sid ds st"
  by (induction ds arbitrary: st) (auto simp: handler_foreign)

lemma handler_received_iff:
  "received_agent_response (fst (handler sid event raw st))
   = (received_agent_response st \<or> accepts sid raw \<and> event \<in> SUBSTANTIVE_EVENTS)"
  by (cases "accepts sid raw") (simp_all add: handler_received handler_rejects)

lemma handler_done_iff:
  "done_flag (fst (handler sid event raw st))
   = (done_flag st
      \<or> accepts sid raw \<and> event = SESSION_INPUT_STATE \<and> is_waiting_input raw
          \<and> received_agent_response st
      \<or> accepts sid raw \<and> event = SESSION_STATE \<and> is_terminal_state raw)"
  by (cases "accepts sid raw") (auto simp: handler_done handler_rejects)

lemma deliver_received_iff:
  "received_agent_response (deliver sid ds st)
   = (received_agent_response st
      \<or> (\<exists>d\<in>set ds. fst d \<in> SUBSTANTIVE_EVENTS \<and> accepts sid (snd d)))"
proof (induction ds arbitrary: st)
  case Nil
  show ?case by simp
next
  case (Cons d ds)
  obtain event raw where d: "d = (event, raw)" by (cases d)
  show ?case
    unfolding d using Cons.IH [of "fst (handler sid event raw st)"]
    by (auto simp: handler_received_iff)
qed

lemma deliver_done_iff:
  "done_flag (deliver sid ds st)
   = (done_flag st
      \<or> (\<exists>raw. (SESSION_STATE, raw) \<in> set ds \<and> accepts sid raw \<and> is_terminal_state raw)
      \<or> (\<exists>pre raw post. ds = pre @ (SESSION_INPUT_STATE, raw) # post
            \<and> accepts sid raw \<and> is_waiting_input raw
            \<and> (received_agent_response st
               \<or> (\<exists>d\<in>set pre. fst d \<in> SUBSTANTIVE_EVENTS \<and> accepts sid (snd d)))))"
proof (induction ds arbitrary: st)
  case Nil
  show ?case by simp
next
  case (Cons d ds)
  obtain event raw0 where d: "d = (event, raw0)" by (cases d)
  let ?st1 = "fst (handler sid event raw0 st)"
  let ?W = "\<lambda>ds heard. \<exists>pre raw post. ds = pre @ (SESSION_INPUT_STATE, raw) # post
            \<and> accepts sid raw \<and> is_waiting_input raw
            \<and> (heard \<or> (\<exists>d\<in>set pre. fst d \<in> SUBSTANTIVE_EVENTS \<and> accepts sid (snd d)))"
  have w: "?W (d # ds) (received_agent_response st)
      \<longleftrightarrow> (event = SESSION_INPUT_STATE \<and> accepts sid raw0 \<and> is_waiting_input raw0
            \<and> received_agent_response st)
          \<or> ?W ds (received_agent_response st \<or> accepts sid raw0 \<and> event \<in> SUBSTANTIVE_EVENTS)"
    (is "?L \<longleftrightarrow> ?A \<or> ?B")
  proof
    assume ?L
    then obtain pre raw post where eq: "d # ds = pre @ (SESSION_INPUT_STATE, raw) # post"
      and ok: "accepts sid raw" "is_waiting_input raw"
      and heard: "received_agent_response st
         \<or> (\<exists>d\<in>set pre. fst d \<in> SUBSTANTIVE_EVENTS \<and> accepts sid (snd d))"
      by blast
    show "?A \<or> ?B"
    proof (cases pre)
      case Nil
      then show ?thesis using eq ok heard d by auto
    next
      case (Cons x pre')
      then have "x = d" "ds = pre' @ (SESSION_INPUT_STATE, raw) # post"
        using eq by simp_all
      then have ?B
        using ok heard Cons d by auto
      then show ?thesis ..
    qed
  next
    assume "?A \<or> ?B"
    then show ?L
    proof
      assume ?A
      then have "d # ds = [] @ (SESSION_INPUT_STATE, raw0) # ds"
        using d by simp
      then show ?L using \<open>?A\<close> by blast
    next
      assume ?B
      then obtain pre raw post where eq: "ds = pre @ (SESSION_INPUT_STATE, raw) # post"
        and ok: "accepts sid raw" "is_waiting_input raw"
        and heard: "(received_agent_response st \<or> accepts sid raw0 \<and> event \<in> SUBSTANTIVE_EVENTS)
           \<or> (\<exists>d\<in>set pre. fst d \<in> SUBSTANTIVE_EVENTS \<and> accepts sid (snd d))"
        by blast
      have "d # ds = (d # pre) @ (SESSION_INPUT_STATE, raw) # post"
        using eq by simp
      moreover have "received_agent_response st
          \<or> (\<exists>x\<in>set (d # pre). fst x \<in> SUBSTANTIVE_EVENTS \<and> accepts sid (snd x))"
        using heard d by auto
      ultimately show ?L using ok by blast
    qed
  qed
  have "done_flag (deliver sid (d # ds) st) = done_flag (deliver sid ds ?st1)"
    by (simp add: d)
  also have "\<dots> = (done_flag ?st1
      \<or> (\<exists>raw. (SESSION_STATE, raw) \<in> set ds \<and> accepts sid raw \<and> is_terminal_state raw)
      \<or> ?W ds (received_agent_response ?st1))"
    by (rule Cons.IH)
  also have "\<dots> = (done_flag st
      \<or> (\<exists>raw. (SESSION_STATE, raw) \<in> set (d # ds) \<and> accepts sid raw \<and> is_terminal_state raw)
      \<or> ?W (d # ds) (received_agent_response st))"
    unfolding w handler_received_iff handler_done_iff using d by auto
  finally show ?case .
qed

lemma deliver_flags_cong:
  assumes "received_agent_response st = received_agent_response st'"
    and "done_flag st = done_flag st'"
  shows "received_agent_response (deliver sid ds st) = received_agent_response (deliver sid ds st')
     \<and> done_flag (deliver sid ds st) = done_flag (deliver sid ds st')"
  using assms by (simp add: deliver_received_iff deliver_done_iff)

lemma deliver_without_signal:
  assumes "\<not> received_agent_response st"
    and "\<forall>d\<in>set ds. \<not> (fst d \<in> SUBSTANTIVE_EVENTS \<and> accepts sid (snd d))"
    and "\<forall>d\<in>set ds. \<not> (fst d = SESSION_STATE \<and> accepts sid (snd d) \<and> is_terminal_state (snd d))"
  shows "done_flag (deliver sid ds st) = done_flag st
     \<and> \<not> received_agent_response (deliver sid ds st)"
proof -
  have "\<not> received_agent_response (deliver sid ds st)"
    using assms(1,2) by (simp add: deliver_received_iff)
  moreover have "done_flag (deliver sid ds st) = done_flag st"
    unfolding deliver_done_iff using assms by fastforce
  ultimately show ?thesis by simp
qed

text \<open>
  The stop sentinel is enqueued only together with \<^verbatim>\<open>done\<close>, and behind the event
  that brought the signal: a queue whose first item is an event keeps that item first.
\<close>

lemma handler_sentinel:
  assumes "None \<in> set (queue st) \<longrightarrow> done_flag st"
  shows "None \<in> set (queue (fst (handler sid event raw st)))
     \<longrightarrow> done_flag (fst (handler sid event raw st))"
  using assms
  by (cases "accepts sid raw") (auto simp: handler_queue handler_done handler_rejects)

lemma deliver_sentinel:
  assumes "None \<in> set (queue st) \<longrightarrow> done_flag st"
  shows "None \<in> set (queue (deliver sid ds st)) \<longrightarrow> done_flag (deliver sid ds st)"
  using assms
proof (induction ds arbitrary: st)
  case Nil
  then show ?case by simp
next
  case (Cons d ds)
  obtain event raw where d: "d = (event, raw)" by (cases d)
  show ?case
    using Cons.IH [OF handler_sentinel [OF Cons.prems, of sid event raw]] by (simp add: d)
qed

lemma handler_head:
  assumes "queue st = [] \<or> hd (queue st) \<noteq> None"
  shows "queue (fst (handler sid event raw st)) = []
     \<or> hd (queue (fst (handler sid event raw st))) \<noteq> None"
proof (cases "accepts sid raw")
  case True
  show ?thesis
    using assms by (cases "queue st") (simp_all add: handler_queue [OF True])
next
  case False
  then show ?thesis using assms by (simp add: handler_rejects)
qed

lemma deliver_head:
  assumes "queue st = [] \<or> hd (queue st) \<noteq> None"
  shows "queue (deliver sid ds st) = [] \<or> hd (queue (deliver sid ds st)) \<noteq> None"
  using assms
proof (induction ds arbitrary: st)
  case Nil
  then show ?case by simp
next
  case (Cons d ds)
  obtain event raw where d: "d = (event, raw)" by (cases d)
  show ?case
    using Cons.IH [OF handler_head [OF Cons.prems, of sid event raw]] by (simp add: d)
qed

text \<open>Traces: the projections distribute over the pieces of a run.\<close>

lemma after_simps [simp]: "fst (after acts r) = acts @ fst r" "snd (after acts r) = snd r"
  by (simp_all add: after_def)

lemma yielded_append: "yielded (xs @ ys) = yielded xs @ yielded ys"
  by (induction xs rule: yielded.induct) auto

lemma queue_yields_append: "queue_yields (xs @ ys) = queue_yields xs @ queue_yields ys"
  by (induction xs rule: queue_yields.induct) auto

lemma call_args_append: "call_args (xs @ ys) = call_args xs @ call_args ys"
  by (induction xs rule: call_args.induct) auto

lemma calls_simps [simp]:
  "yielded (calls ds) = []" "queue_yields (calls ds) = []" "call_args (calls ds) = ds"
  "count_list (calls ds) Register = 0" "count_list (calls ds) Deregister = 0"
  by (induction ds) (auto simp: calls_def)

section \<open>One resumption\<close>

lemma drain_None: "queue st = None # q \<Longrightarrow> drain (st\<lparr>queue := q\<rparr>) = drain st"
  by (subst (2) drain.simps) simp

lemma drain_cases:
  "(drain st = ([Deregister], Finished Returned) \<and> reals (queue st) = []) \<or>
   (\<exists>e q. drain st = ([Yield Drain (Some e)], Suspended At_drain_yield (st\<lparr>queue := q\<rparr>))
      \<and> reals (queue st) = Some e # reals q \<and> set q \<subseteq> set (queue st))"
proof (induction st rule: drain.induct)
  case (1 st)
  show ?case
  proof (cases "queue st")
    case Nil
    then show ?thesis
      by (subst drain.simps) (simp add: reals_def)
  next
    case (Cons evt q)
    show ?thesis
    proof (cases evt)
      case None
      have eq: "drain st = drain (st\<lparr>queue := q\<rparr>)"
        using drain_None [of st q] Cons None by simp
      show ?thesis
        using "1.IH" [OF Cons] Cons None unfolding eq
        by (auto simp: reals_def)
    next
      case (Some e)
      have "drain st = ([Yield Drain (Some e)], Suspended At_drain_yield (st\<lparr>queue := q\<rparr>))"
        using Cons Some by (subst drain.simps) simp
      then show ?thesis using Cons Some by (auto simp: reals_def)
    qed
  qed
qed

lemma shape_after: "shape sid st [] r \<Longrightarrow> shape sid st cs (after cs r)"
  by (induction rule: shape.induct) (simp_all add: after_def shape.intros)

lemma drain_shape: "shape sid st [] (drain st)"
proof -
  consider "drain st = ([Deregister], Finished Returned)" "reals (queue st) = []"
    | e q where "drain st = ([Yield Drain (Some e)], Suspended At_drain_yield (st\<lparr>queue := q\<rparr>))"
        "reals (queue st) = Some e # reals q" "set q \<subseteq> set (queue st)"
    using drain_cases [of st] by blast
  then show ?thesis
  proof cases
    case 1
    then show ?thesis using shape.Returns [of st sid "[]"] by simp
  next
    case 2
    then show ?thesis
      using shape.Pops [of Drain At_drain_yield st e q sid "[]"] by simp
  qed
qed

lemma loop_top_shape: "shape sid st [] (loop_top cfg st)"
  using shape.Waits [of sid st "[]"] by (simp add: loop_top_def Let_def drain_shape)

lemma leave_shape: "shape sid st [] (leave e)"
  using shape.Raises [of sid st "[]"] by (simp add: leave_def)

lemma terminal_event_session_id: "terminal_event sid session = Inr (Some ev) \<Longrightarrow> session_id ev = sid"
  by (auto simp: terminal_event_def split: json.splits sum.splits bool.splits)

lemma in_TERMINAL_STATES_Exception: "in_TERMINAL_STATES x = Inl e \<Longrightarrow> e = TypeError"
  by (cases x) auto

lemma terminal_event_Exception: "terminal_event sid session = Inl e \<Longrightarrow> is_Exception e"
  by (auto simp: terminal_event_def dict_item_def
      split: json.splits sum.splits bool.splits option.splits
      dest: in_TERMINAL_STATES_Exception)

lemma ask_shape: "shape sid st [] ([Query], Suspended At_repoll_query st)"
  using shape.Asks [of sid st "[]"] by simp

lemma synth_shape:
  "session_id ev = sid \<Longrightarrow> shape sid st [] ([Yield Repoll (Some ev)], Suspended At_repoll_yield st)"
  using shape.Synth [of ev sid st "[]"] by simp

lemmas shapes = shape_after drain_shape loop_top_shape leave_shape ask_shape synth_shape

lemma resume_shape:
  assumes "active p"
  shows "shape sid (deliver sid (arrivals t) st) (calls (arrivals t)) (resume cfg sid p st t)"
proof (cases p)
  case At_wait
  let ?st1 = "deliver sid (arrivals t) st"
  show ?thesis
  proof (cases "outcome t")
    case (Inl e)
    then show ?thesis
      unfolding At_wait by (simp add: Let_def shapes)
  next
    case (Inr v)
    show ?thesis
    proof (cases "queue ?st1")
      case Nil
      then show ?thesis
        unfolding At_wait using Inr by (simp add: Let_def shapes)
    next
      case (Cons evt q)
      show ?thesis
      proof (cases evt)
        case None
        have "shape sid ?st1 [] (drain (?st1\<lparr>queue := q\<rparr>))"
          using drain_None [of ?st1 q] Cons None drain_shape [of sid ?st1] by simp
        then show ?thesis
          unfolding At_wait using Inr Cons None by (simp add: Let_def shapes)
      next
        case (Some e)
        have "shape sid ?st1 [] ([Yield Loop (Some e)], Suspended At_loop_yield (?st1\<lparr>queue := q\<rparr>))"
          using shape.Pops [of Loop At_loop_yield ?st1 e q sid "[]"] Cons Some
          by (auto simp: reals_def)
        then show ?thesis
          unfolding At_wait using Inr Cons Some by (simp add: Let_def shapes)
      qed
    qed
  qed
next
  case At_repoll_query
  show ?thesis
    unfolding At_repoll_query
    by (simp add: Let_def shapes terminal_event_session_id split: sum.splits option.splits)
next
  case At_repoll_yield
  show ?thesis
    unfolding At_repoll_yield by (simp add: Let_def shapes split: demand.splits)
next
  case At_loop_yield
  show ?thesis
    unfolding At_loop_yield by (simp add: Let_def shapes split: demand.splits)
next
  case At_drain_yield
  show ?thesis
    unfolding At_drain_yield by (simp add: Let_def shapes split: demand.splits)
qed (use assms in simp_all)

section \<open>Silence without a state query\<close>

lemma init_lstate_simps [simp]:
  "queue init_lstate = []" "done_flag init_lstate = False"
  "received_agent_response init_lstate = False"
  by (simp_all add: init_lstate_def)

lemma run_silent:
  assumes "\<not> check_session_state cfg"
    and "\<forall>t\<in>set ts. arrivals t = [] \<and> \<not> isl (outcome t)"
  shows "run cfg sid (Suspended At_wait init_lstate) ts =
     (replicate (length ts) (Wait (idle_timeout_s cfg)), Suspended At_wait init_lstate)"
  using assms(2)
proof (induction ts)
  case Nil
  show ?case by simp
next
  case (Cons t ts)
  obtain v where v: "outcome t = Inr v"
    using Cons.prems by (cases "outcome t") auto
  have step: "resume cfg sid At_wait init_lstate t =
      ([Wait (idle_timeout_s cfg)], Suspended At_wait init_lstate)"
    using Cons.prems assms(1) v
    by (simp add: calls_def after_def loop_top_def)
  show ?case
    using Cons.IH Cons.prems by (simp add: step after_def del: resume.simps)
qed

text \<open>
  C1 (as amended). A listen call with no state-query collaborator to which no event is
  ever delivered does not end after an idle timeout: after every timeout it waits
  again, with the idle timeout, and it has yielded nothing. However many timeouts have
  passed, the generator is suspended in the wait of line 190.
\<close>

theorem listen_silent_keeps_waiting:
  assumes "\<not> check_session_state cfg"
    and "\<forall>t\<in>set ts. arrivals t = [] \<and> \<not> isl (outcome t)"
  shows "listen cfg sid skip ts =
     (Register # replicate (Suc (length ts)) (Wait (idle_timeout_s cfg)),
      Suspended At_wait init_lstate)"
  using assms
  by (simp add: listen_def activate_def loop_top_def after_def run_silent
      flip: replicate_append_same)

theorem listen_silent_keeps_waiting_witness:
  "listen \<lparr>check_session_state = False, idle_timeout_s = 120, response_idle_timeout_s = 2\<rparr>
     ''s1'' True
     [\<lparr>arrivals = [], outcome = Inr JNull, consumer = Next\<rparr>,
      \<lparr>arrivals = [], outcome = Inr JNull, consumer = Next\<rparr>] =
   ([Register, Wait 120, Wait 120, Wait 120], Suspended At_wait init_lstate)"
  using listen_silent_keeps_waiting
    [of "\<lparr>check_session_state = False, idle_timeout_s = 120, response_idle_timeout_s = 2\<rparr>"
      "[\<lparr>arrivals = [], outcome = Inr JNull, consumer = Next\<rparr>,
        \<lparr>arrivals = [], outcome = Inr JNull, consumer = Next\<rparr>]" "''s1''" True]
  by (simp add: numeral_3_eq_3)

text \<open>
  C1 as stated fails: with \<^verbatim>\<open>idle_timeout_s=5\<close>, no collaborator and no traffic, the
  call has not ended after one timeout, nor after three; it is waiting a fourth time.
\<close>

theorem listen_one_timeout_counterexample:
  "listen \<lparr>check_session_state = False, idle_timeout_s = 5, response_idle_timeout_s = 2\<rparr>
     ''s1'' True
     [\<lparr>arrivals = [], outcome = Inr JNull, consumer = Next\<rparr>,
      \<lparr>arrivals = [], outcome = Inr JNull, consumer = Next\<rparr>,
      \<lparr>arrivals = [], outcome = Inr JNull, consumer = Next\<rparr>] =
   ([Register, Wait 5, Wait 5, Wait 5, Wait 5],
    Suspended At_wait \<lparr>queue = [], done_flag = False, received_agent_response = False\<rparr>)"
  by (simp add: listen_def activate_def loop_top_def init_lstate_def after_def calls_def)

section \<open>The stale-event filter\<close>

lemma is_stale_event_no_dict:
  "\<not> is_dict (metadata event) \<Longrightarrow> is_stale_event fromisoformat event cutoff = Inr False"
  by (cases "metadata event") (simp_all add: is_stale_event_def)

lemma is_stale_event_falsy:
  "metadata event = JDict kv \<Longrightarrow> \<not> truthy (dict_get kv ''timestamp'' JNull) \<Longrightarrow>
   is_stale_event fromisoformat event cutoff = Inr False"
  by (simp add: is_stale_event_def)

lemma is_stale_event_string:
  "metadata event = JDict kv \<Longrightarrow> dict_get kv ''timestamp'' JNull = JStr s \<Longrightarrow> s \<noteq> [] \<Longrightarrow>
   is_stale_event fromisoformat event cutoff =
     Inr (\<exists>event_ts. fromisoformat (replace_Z s) = Some event_ts
            \<and> datetime_lt event_ts cutoff = Inr True)"
  by (auto simp: is_stale_event_def split: option.splits sum.splits)

lemma replace_Z_suffix: "replace_Z (s @ ''Z'') = replace_Z s @ ''+00:00''"
  by (simp add: replace_Z_def)

text \<open>
  C2 (a defect of the code). A timestamp that is present and truthy but not a string,
  such as a number of seconds, makes \<^verbatim>\<open>_is_stale_event\<close> raise
  \<^verbatim>\<open>AttributeError\<close> at \<^verbatim>\<open>ts_str.replace\<close>, whatever the parser and the cutoff:
  the test does not return false on it, as it does on a string that does not parse.
\<close>

theorem is_stale_event_raises_on_non_string:
  assumes "metadata event = JDict kv"
    and "truthy (dict_get kv ''timestamp'' JNull)"
    and "\<forall>s. dict_get kv ''timestamp'' JNull \<noteq> JStr s"
  shows "is_stale_event fromisoformat event cutoff = Inl AttributeError"
  using assms
  by (cases "dict_get kv ''timestamp'' JNull") (simp_all add: is_stale_event_def)

theorem is_stale_event_raises_on_non_string_witness:
  "is_stale_event (\<lambda>s. None)
     \<lparr>type = SESSION_TEXT, session_id = ''s1'', message_id = JNull, data = JNull,
      metadata = JDict [(''timestamp'', JInt 1700000000)]\<rparr>
     (Aware 1771668000000000) = Inl AttributeError"
  using is_stale_event_raises_on_non_string
    [of "\<lparr>type = SESSION_TEXT, session_id = ''s1'', message_id = JNull, data = JNull,
          metadata = JDict [(''timestamp'', JInt 1700000000)]\<rparr>"
      "[(''timestamp'', JInt 1700000000)]" "\<lambda>s. None" "Aware 1771668000000000"]
  by (simp add: dict_get_def)

section \<open>Session isolation\<close>

lemma resume_drop_foreign:
  "snd (resume cfg sid p st (drop_foreign sid t)) = snd (resume cfg sid p st t) \<and>
   yielded (fst (resume cfg sid p st (drop_foreign sid t))) = yielded (fst (resume cfg sid p st t))"
  by (cases p) (simp_all add: Let_def drop_foreign_def deliver_drop_foreign yielded_append)

lemma run_drop_foreign:
  "snd (run cfg sid g (map (drop_foreign sid) ts)) = snd (run cfg sid g ts) \<and>
   yielded (fst (run cfg sid g (map (drop_foreign sid) ts))) = yielded (fst (run cfg sid g ts))"
proof (induction ts arbitrary: g)
  case Nil
  show ?case by simp
next
  case (Cons t ts)
  show ?case
  proof (cases g)
    case (Suspended p st)
    show ?thesis
      using resume_drop_foreign [of cfg sid p st t] Cons.IH [of "snd (resume cfg sid p st t)"]
      by (simp add: Suspended yielded_append Let_def del: resume.simps)
  next
    case (Finished s)
    then show ?thesis by simp
  qed
qed

text \<open>
  C3 (as amended). An envelope whose session id is present, truthy and different from
  the requested one is discarded by the observer before anything is enqueued or any
  flag is read or set: the handler returns the state it was given. So what a listen
  call yields and the state it ends in, flags included, are the same as if those
  envelopes had never been delivered. An envelope whose session id is absent, null,
  empty or otherwise falsy is accepted whatever the requested session is: its event is
  enqueued, and sets \<^verbatim>\<open>received_agent_response\<close> if its type is substantive.
\<close>

theorem foreign_events_are_discarded:
  "(foreign sid raw \<longrightarrow> handler sid event raw st = (st, None)) \<and>
   yielded (fst (listen cfg sid skip (map (drop_foreign sid) ts)))
     = yielded (fst (listen cfg sid skip ts)) \<and>
   snd (listen cfg sid skip (map (drop_foreign sid) ts)) = snd (listen cfg sid skip ts) \<and>
   (is_dict (payload_of raw') \<and> \<not> truthy (envelope_session_id raw') \<longrightarrow>
      accepts sid raw'
      \<and> reals (queue (fst (handler sid event' raw' st')))
          = reals (queue st') @ [Some (event_of sid event' raw')]
      \<and> received_agent_response (fst (handler sid event' raw' st'))
          = (received_agent_response st' \<or> event' \<in> SUBSTANTIVE_EVENTS))"
proof -
  have "accepts sid raw'
      \<and> reals (queue (fst (handler sid event' raw' st')))
          = reals (queue st') @ [Some (event_of sid event' raw')]
      \<and> received_agent_response (fst (handler sid event' raw' st'))
          = (received_agent_response st' \<or> event' \<in> SUBSTANTIVE_EVENTS)"
    if "is_dict (payload_of raw') \<and> \<not> truthy (envelope_session_id raw')"
  proof -
    have a: "accepts sid raw'"
      using that by (simp add: accepts_def foreign_def)
    show ?thesis
      using a handler_reals [of sid event' raw' st'] handler_received [OF a, of event' st']
      by (simp add: accepted_def)
  qed
  then show ?thesis
    using run_drop_foreign [of cfg sid _ ts]
    by (simp add: handler_foreign listen_def yielded_append Let_def)
qed

theorem foreign_events_are_discarded_witness:
  "handler ''s1'' SESSION_TEXT
     [(''payload'', JDict [(''session_id'', JStr ''s2''), (''data'', JDict [(''content'', JStr ''hi'')])])]
     init_lstate = (init_lstate, None) \<and>
   yielded (fst (listen
     \<lparr>check_session_state = False, idle_timeout_s = 120, response_idle_timeout_s = 2\<rparr> ''s1'' True
     [\<lparr>arrivals = [(SESSION_TEXT,
          [(''payload'', JDict [(''session_id'', JStr ''s2''),
                                (''data'', JDict [(''content'', JStr ''hi'')])])])],
       outcome = Inr JNull, consumer = Next\<rparr>])) = [] \<and>
   reals (queue (fst (handler ''s1'' SESSION_TEXT
     [(''payload'', JDict [(''data'', JDict [(''content'', JStr ''hi'')])])] init_lstate))) =
     [Some \<lparr>type = SESSION_TEXT, session_id = ''s1'', message_id = JNull,
            data = JDict [(''content'', JStr ''hi'')], metadata = JNull\<rparr>] \<and>
   received_agent_response (fst (handler ''s1'' SESSION_TEXT
     [(''payload'', JDict [(''data'', JDict [(''content'', JStr ''hi'')])])] init_lstate))"
proof -
  let ?raw = "[(''payload'', JDict [(''session_id'', JStr ''s2''),
                                   (''data'', JDict [(''content'', JStr ''hi'')])])]"
  let ?anon = "[(''payload'', JDict [(''data'', JDict [(''content'', JStr ''hi'')])])]"
  let ?cfg = "\<lparr>check_session_state = False, idle_timeout_s = 120, response_idle_timeout_s = 2\<rparr>"
  let ?t = "\<lparr>arrivals = [(SESSION_TEXT, ?raw)], outcome = Inr JNull, consumer = Next\<rparr>"
  note T = foreign_events_are_discarded
    [of "''s1''" ?raw SESSION_TEXT init_lstate ?cfg True "[?t]" ?anon SESSION_TEXT init_lstate]
  have f: "foreign ''s1'' ?raw"
    by (simp add: notions dict_get_def)
  have n: "is_dict (payload_of ?anon) \<and> \<not> truthy (envelope_session_id ?anon)"
    by (simp add: notions dict_get_def)
  have d: "map (drop_foreign ''s1'') [?t] = [\<lparr>arrivals = [], outcome = Inr JNull, consumer = Next\<rparr>]"
    using f by (simp add: drop_foreign_def)
  have e: "yielded (fst (listen ?cfg ''s1'' True
          [\<lparr>arrivals = [], outcome = Inr JNull, consumer = Next\<rparr>])) = []"
    by (simp add: listen_def activate_def loop_top_def after_def calls_def)
  have c1: "handler ''s1'' SESSION_TEXT ?raw init_lstate = (init_lstate, None)"
    using T [THEN conjunct1] f by simp
  have c2: "yielded (fst (listen ?cfg ''s1'' True [?t])) = []"
    using T [THEN conjunct2, THEN conjunct1] e unfolding d by simp
  have c3: "reals (queue (fst (handler ''s1'' SESSION_TEXT ?anon init_lstate)))
        = reals (queue init_lstate) @ [Some (event_of ''s1'' SESSION_TEXT ?anon)]
      \<and> received_agent_response (fst (handler ''s1'' SESSION_TEXT ?anon init_lstate))
        = (received_agent_response init_lstate \<or> SESSION_TEXT \<in> SUBSTANTIVE_EVENTS)"
    using T [THEN conjunct2, THEN conjunct2, THEN conjunct2] n by blast
  have c4: "reals (queue (fst (handler ''s1'' SESSION_TEXT ?anon init_lstate)))
      = [Some \<lparr>type = SESSION_TEXT, session_id = ''s1'', message_id = JNull,
            data = JDict [(''content'', JStr ''hi'')], metadata = JNull\<rparr>]"
    using c3 [THEN conjunct1] by (simp add: reals_def event_of_def payload_of_def dict_get_def)
  have c5: "received_agent_response (fst (handler ''s1'' SESSION_TEXT ?anon init_lstate))"
    using c3 [THEN conjunct2] by (simp add: SUBSTANTIVE_EVENTS_def)
  show ?thesis
    using c1 c2 c4 c5 by (intro conjI)
qed

text \<open>
  C3 as stated fails: an envelope whose session id is the empty string differs from the
  requested session \<^verbatim>\<open>s1\<close>, yet line 163 lets it through; the event is enqueued,
  sets \<^verbatim>\<open>received_agent_response\<close> and is yielded.
\<close>

theorem empty_session_id_counterexample:
  "envelope_session_id [(''payload'', JDict [(''session_id'', JStr []), (''data'', JNull)])]
     = JStr [] \<and>
   JStr [] \<noteq> JStr ''s1'' \<and>
   handler ''s1'' SESSION_TEXT
     [(''payload'', JDict [(''session_id'', JStr []), (''data'', JNull)])] init_lstate =
     (\<lparr>queue = [Some \<lparr>type = SESSION_TEXT, session_id = ''s1'', message_id = JNull,
                       data = JNull, metadata = JNull\<rparr>],
       done_flag = False, received_agent_response = True\<rparr>, None) \<and>
   yielded (fst (listen
     \<lparr>check_session_state = False, idle_timeout_s = 120, response_idle_timeout_s = 2\<rparr> ''s1'' True
     [\<lparr>arrivals = [(SESSION_TEXT,
          [(''payload'', JDict [(''session_id'', JStr []), (''data'', JNull)])])],
       outcome = Inr JNull, consumer = Next\<rparr>])) =
     [Some \<lparr>type = SESSION_TEXT, session_id = ''s1'', message_id = JNull,
            data = JNull, metadata = JNull\<rparr>]"
  by (simp add: envelope_session_id_def payload_of_def dict_get_def handler_def
      put_nowait_def on_substantive_def on_input_state_def on_session_state_def
      SUBSTANTIVE_EVENTS_def init_lstate_def
      listen_def activate_def loop_top_def after_def calls_def)

section \<open>Properties of every run\<close>

text \<open>
  A relation between the generator before a piece of a run, the actions of the piece
  and the generator after it holds of every run when it holds of the empty piece and of
  one resumption, and composes; \<open>I\<close> is an invariant of the suspended generator that
  the proof of a step may need.
\<close>

lemma run_rule:
  assumes init: "I g"
    and refl: "\<And>g. R g [] g"
    and step: "\<And>p st t. I (Suspended p st) \<Longrightarrow>
        R (Suspended p st) (fst (resume cfg sid p st t)) (snd (resume cfg sid p st t))
        \<and> I (snd (resume cfg sid p st t))"
    and trans: "\<And>g a p st b g'. R g a (Suspended p st) \<Longrightarrow> R (Suspended p st) b g' \<Longrightarrow>
        R g (a @ b) g'"
  shows "R g (fst (run cfg sid g ts)) (snd (run cfg sid g ts))"
  using init
proof (induction ts arbitrary: g)
  case Nil
  show ?case by (cases g) (simp_all add: refl)
next
  case (Cons t ts)
  show ?case
  proof (cases g)
    case (Finished s)
    then show ?thesis by (simp add: refl)
  next
    case (Suspended p st)
    let ?r = "resume cfg sid p st t"
    have one: "R g (fst ?r) (snd ?r)" and inv: "I (snd ?r)"
      using step [of p st t] Cons.prems Suspended by simp_all
    have eq: "run cfg sid g (t # ts) = after (fst ?r) (run cfg sid (snd ?r) ts)"
      by (simp add: Suspended Let_def del: resume.simps)
    show ?thesis
    proof (cases "snd ?r")
      case (Finished s)
      then show ?thesis using one by (simp add: eq del: resume.simps)
    next
      case next_gen: (Suspended p' st')
      have "R (Suspended p' st') (fst (run cfg sid (snd ?r) ts)) (snd (run cfg sid (snd ?r) ts))"
        using Cons.IH [OF inv] next_gen by simp
      then show ?thesis
        using trans [of g "fst ?r" p' st'] one next_gen by (simp add: eq del: resume.simps)
    qed
  qed
qed

lemma activate_eq:
  "activate cfg = ([Register, Wait (idle_timeout_s cfg)], Suspended At_wait init_lstate)"
  by (simp add: activate_def loop_top_def after_def)

lemma run_append:
  "run cfg sid g (us @ vs) = after (fst (run cfg sid g us)) (run cfg sid (snd (run cfg sid g us)) vs)"
proof (induction us arbitrary: g)
  case Nil
  show ?case by (cases g) (simp_all add: after_def)
next
  case (Cons u us)
  show ?case
  proof (cases g)
    case (Suspended p st)
    show ?thesis
      using Cons.IH [of "snd (resume cfg sid p st u)"]
      by (simp add: Suspended Let_def after_def del: resume.simps)
  next
    case (Finished s)
    then show ?thesis by (simp add: after_def)
  qed
qed

lemma listen_append:
  "listen cfg sid skip (us @ vs)
   = after (fst (listen cfg sid skip us)) (run cfg sid (snd (listen cfg sid skip us)) vs)"
  by (simp add: listen_def Let_def run_append after_def)

lemma drain_point:
  assumes "snd (drain st) = Suspended p' st'"
  shows "p' = At_drain_yield \<and> set (queue st') \<subseteq> set (queue st) \<and> done_flag st' = done_flag st"
  using drain_cases [of st] assms by fastforce

lemma loop_top_point:
  assumes "snd (loop_top cfg st) = Suspended p' st'"
  shows "(p' = At_wait \<longrightarrow> \<not> done_flag st') \<and> set (queue st') \<subseteq> set (queue st)
     \<and> done_flag st' = done_flag st"
  using assms drain_point [of st p' st']
  by (auto simp: loop_top_def Let_def split: if_splits)

lemma leave_point: "snd (leave e) \<noteq> Suspended p' st'"
  by (simp add: leave_def)

lemma shape_queue:
  assumes "shape sid st cs r" and "snd r = Suspended p' st'"
  shows "set (queue st') \<subseteq> set (queue st) \<and> done_flag st' = done_flag st"
  using assms by (induction rule: shape.induct) auto

text \<open>
  The two flags of a suspended generator are those that the observer calls of the run
  so far produce from the flags at its start: the loop itself never writes them.
\<close>

lemma shape_flags:
  assumes "shape sid st cs r" and "call_args cs = ds"
  shows "call_args (fst r) = ds
     \<and> (\<forall>p' st'. snd r = Suspended p' st' \<longrightarrow>
          active p' \<and> received_agent_response st' = received_agent_response st
          \<and> done_flag st' = done_flag st)"
  using assms by (induction rule: shape.induct) (auto simp: call_args_append)

lemma resume_flags:
  assumes "active p \<or> st = init_lstate"
  shows "(\<forall>p' st'. snd (resume cfg sid p st t) = Suspended p' st' \<longrightarrow>
        received_agent_response st'
          = received_agent_response (deliver sid (call_args (fst (resume cfg sid p st t))) st)
        \<and> done_flag st' = done_flag (deliver sid (call_args (fst (resume cfg sid p st t))) st))
     \<and> (\<forall>p' st'. snd (resume cfg sid p st t) = Suspended p' st' \<longrightarrow> active p' \<or> st' = init_lstate)"
proof (cases "active p")
  case True
  show ?thesis
    using shape_flags [OF resume_shape [OF True, of sid t st cfg], of "arrivals t"]
    by simp
next
  case False
  then consider "p = At_precheck_query" | "p = At_precheck_yield"
    by (cases p) simp_all
  then show ?thesis
    using assms False
    by cases (auto simp: activate_eq split: sum.splits option.splits demand.splits)
qed

lemma run_flags:
  assumes "active p \<or> st = init_lstate"
    and "snd (run cfg sid (Suspended p st) ts) = Suspended p' st'"
  shows "received_agent_response st'
       = received_agent_response (deliver sid (call_args (fst (run cfg sid (Suspended p st) ts))) st)
     \<and> done_flag st' = done_flag (deliver sid (call_args (fst (run cfg sid (Suspended p st) ts))) st)"
proof -
  let ?R = "\<lambda>g acts g'. \<forall>p st p' st'. g = Suspended p st \<and> g' = Suspended p' st' \<longrightarrow>
      received_agent_response st' = received_agent_response (deliver sid (call_args acts) st)
      \<and> done_flag st' = done_flag (deliver sid (call_args acts) st)"
  have "?R (Suspended p st) (fst (run cfg sid (Suspended p st) ts))
      (snd (run cfg sid (Suspended p st) ts))"
  proof (rule run_rule [where R = ?R
        and I = "\<lambda>g. \<forall>p st. g = Suspended p st \<longrightarrow> active p \<or> st = init_lstate"])
    show "\<forall>p0 st0. Suspended p st = Suspended p0 st0 \<longrightarrow> active p0 \<or> st0 = init_lstate"
      using assms(1) by simp
  next
    fix g :: gen
    show "?R g [] g" by auto
  next
    fix p st t
    assume "\<forall>p0 st0. Suspended p st = Suspended p0 st0 \<longrightarrow> active p0 \<or> st0 = init_lstate"
    then have "active p \<or> st = init_lstate" by simp
    from resume_flags [OF this, of cfg sid t]
    show "?R (Suspended p st) (fst (resume cfg sid p st t)) (snd (resume cfg sid p st t))
       \<and> (\<forall>p0 st0. snd (resume cfg sid p st t) = Suspended p0 st0 \<longrightarrow>
            active p0 \<or> st0 = init_lstate)"
      by simp
  next
    fix g a p st b g'
    assume one: "?R g a (Suspended p st)" and rest: "?R (Suspended p st) b g'"
    show "?R g (a @ b) g'"
    proof (intro allI impI)
      fix p0 st0 p' st'
      assume g: "g = Suspended p0 st0 \<and> g' = Suspended p' st'"
      have mid: "received_agent_response st
            = received_agent_response (deliver sid (call_args a) st0)"
          "done_flag st = done_flag (deliver sid (call_args a) st0)"
        using one g by simp_all
      have "received_agent_response st' = received_agent_response (deliver sid (call_args b) st)"
        "done_flag st' = done_flag (deliver sid (call_args b) st)"
        using rest g by simp_all
      then show "received_agent_response st'
            = received_agent_response (deliver sid (call_args (a @ b)) st0)
          \<and> done_flag st' = done_flag (deliver sid (call_args (a @ b)) st0)"
        using deliver_flags_cong [OF mid, of sid "call_args b"]
        by (simp add: call_args_append deliver_append)
    qed
  qed
  then show ?thesis using assms(2) by simp
qed

lemma listen_flags:
  assumes "snd (listen cfg sid skip ts) = Suspended p' st'"
  shows "received_agent_response st'
       = received_agent_response (deliver sid (call_args (fst (listen cfg sid skip ts))) init_lstate)
     \<and> done_flag st' = done_flag (deliver sid (call_args (fst (listen cfg sid skip ts))) init_lstate)"
proof (cases "\<not> skip \<and> check_session_state cfg")
  case True
  have l: "listen cfg sid skip ts
      = after [Query] (run cfg sid (Suspended At_precheck_query init_lstate) ts)"
    using True by (simp add: listen_def)
  show ?thesis
    using run_flags [of At_precheck_query init_lstate cfg sid ts p' st'] assms
    unfolding l by (simp add: call_args_append)
next
  case False
  have l: "listen cfg sid skip ts = after [Register, Wait (idle_timeout_s cfg)]
      (run cfg sid (Suspended At_wait init_lstate) ts)"
    using False by (auto simp: listen_def activate_eq after_def)
  show ?thesis
    using run_flags [of At_wait init_lstate cfg sid ts p' st'] assms
    unfolding l by (simp add: call_args_append)
qed

lemma resume_wait_point:
  assumes "snd (resume cfg sid p st t) = Suspended At_wait st'"
  shows "\<not> done_flag st'"
proof (cases p)
  case At_precheck_query
  then show ?thesis
    using assms by (auto simp: activate_eq split: sum.splits option.splits if_splits)
next
  case At_precheck_yield
  then show ?thesis
    using assms by (auto split: demand.splits)
next
  case At_wait
  let ?st1 = "deliver sid (arrivals t) st"
  have d: "snd (drain x) \<noteq> Suspended At_wait st'" for x
    using drain_point [of x At_wait st'] by auto
  have l: "snd (loop_top cfg x) = Suspended At_wait st' \<Longrightarrow> \<not> done_flag st'" for x
    using loop_top_point [of cfg x At_wait st'] by simp
  show ?thesis
    using assms unfolding At_wait
    by (auto simp: Let_def d leave_point dest: l
        split: sum.splits list.splits option.splits if_splits)
next
  case At_repoll_query
  have l: "snd (loop_top cfg x) = Suspended At_wait st' \<Longrightarrow> \<not> done_flag st'" for x
    using loop_top_point [of cfg x At_wait st'] by simp
  show ?thesis
    using assms unfolding At_repoll_query
    by (auto simp: Let_def leave_point dest: l split: sum.splits option.splits if_splits)
next
  case At_repoll_yield
  have d: "snd (drain x) \<noteq> Suspended At_wait st'" for x
    using drain_point [of x At_wait st'] by auto
  show ?thesis
    using assms unfolding At_repoll_yield
    by (auto simp: Let_def d leave_point split: demand.splits)
next
  case At_loop_yield
  have l: "snd (loop_top cfg x) = Suspended At_wait st' \<Longrightarrow> \<not> done_flag st'" for x
    using loop_top_point [of cfg x At_wait st'] by simp
  show ?thesis
    using assms unfolding At_loop_yield
    by (auto simp: Let_def leave_point dest: l split: demand.splits)
next
  case At_drain_yield
  have d: "snd (drain x) \<noteq> Suspended At_wait st'" for x
    using drain_point [of x At_wait st'] by auto
  show ?thesis
    using assms unfolding At_drain_yield
    by (auto simp: Let_def d leave_point split: demand.splits)
qed

lemma resume_sentinel:
  assumes "None \<in> set (queue st) \<longrightarrow> done_flag st"
    and "snd (resume cfg sid p st t) = Suspended p' st'"
  shows "(None \<in> set (queue st') \<longrightarrow> done_flag st') \<and> (p' = At_wait \<longrightarrow> \<not> done_flag st')"
proof -
  have w: "p' = At_wait \<longrightarrow> \<not> done_flag st'"
    using resume_wait_point [of cfg sid p st t st'] assms(2) by auto
  have "None \<in> set (queue st') \<longrightarrow> done_flag st'"
  proof (cases "active p")
    case True
    have "None \<in> set (queue (deliver sid (arrivals t) st))
        \<longrightarrow> done_flag (deliver sid (arrivals t) st)"
      by (rule deliver_sentinel [OF assms(1)])
    then show ?thesis
      using shape_queue [OF resume_shape [OF True, of sid t st cfg] assms(2)] by auto
  next
    case False
    then consider "p = At_precheck_query" | "p = At_precheck_yield"
      by (cases p) simp_all
    then show ?thesis
      using assms
      by cases (auto simp: activate_eq split: sum.splits option.splits demand.splits if_splits)
  qed
  with w show ?thesis by simp
qed

lemma run_sentinel:
  assumes "None \<in> set (queue st) \<longrightarrow> done_flag st" and "p = At_wait \<longrightarrow> \<not> done_flag st"
    and "snd (run cfg sid (Suspended p st) ts) = Suspended p' st'"
  shows "(None \<in> set (queue st') \<longrightarrow> done_flag st') \<and> (p' = At_wait \<longrightarrow> \<not> done_flag st')"
  using assms
proof (induction ts arbitrary: p st)
  case Nil
  then show ?case by simp
next
  case (Cons t ts)
  have eq: "snd (run cfg sid (Suspended p st) (t # ts))
      = snd (run cfg sid (snd (resume cfg sid p st t)) ts)"
    by (simp add: Let_def del: resume.simps)
  show ?case
  proof (cases "snd (resume cfg sid p st t)")
    case (Finished s)
    then show ?thesis using Cons.prems(3) unfolding eq by simp
  next
    case (Suspended p1 st1)
    have "(None \<in> set (queue st1) \<longrightarrow> done_flag st1) \<and> (p1 = At_wait \<longrightarrow> \<not> done_flag st1)"
      by (rule resume_sentinel [OF Cons.prems(1) Suspended])
    then show ?thesis
      using Cons.IH [of st1 p1] Cons.prems(3) unfolding eq Suspended by simp
  qed
qed

lemma listen_sentinel:
  assumes "snd (listen cfg sid skip ts) = Suspended p' st'"
  shows "(None \<in> set (queue st') \<longrightarrow> done_flag st') \<and> (p' = At_wait \<longrightarrow> \<not> done_flag st')"
proof (cases "\<not> skip \<and> check_session_state cfg")
  case True
  have l: "listen cfg sid skip ts
      = after [Query] (run cfg sid (Suspended At_precheck_query init_lstate) ts)"
    using True by (simp add: listen_def)
  show ?thesis
    using run_sentinel [of init_lstate At_precheck_query cfg sid ts p' st'] assms
    unfolding l by simp
next
  case False
  have l: "listen cfg sid skip ts = after [Register, Wait (idle_timeout_s cfg)]
      (run cfg sid (Suspended At_wait init_lstate) ts)"
    using False by (auto simp: listen_def activate_eq after_def)
  show ?thesis
    using run_sentinel [of init_lstate At_wait cfg sid ts p' st'] assms
    unfolding l by simp
qed

text \<open>
  At the timed wait, arrivals that leave both flags unset do not end the loop: the wait
  ends with an event to yield, or with a timeout after which the loop asks for the state
  or waits again.
\<close>

lemma listen_stays_in_loop:
  assumes "snd (listen cfg sid skip us) = Suspended At_wait st" and "\<not> isl (outcome t)"
    and "\<not> done_flag (deliver sid (arrivals t) st)"
    and "\<not> received_agent_response (deliver sid (arrivals t) st)"
  shows "\<exists>p' st'. snd (listen cfg sid skip (us @ [t])) = Suspended p' st'
     \<and> (p' = At_wait \<or> p' = At_loop_yield \<or> p' = At_repoll_query)
     \<and> \<not> done_flag st' \<and> \<not> received_agent_response st'"
proof -
  let ?st1 = "deliver sid (arrivals t) st"
  obtain v where v: "outcome t = Inr v"
    using assms(2) by (cases "outcome t") simp_all
  have "None \<in> set (queue st) \<longrightarrow> done_flag st"
    using listen_sentinel [OF assms(1)] by blast
  then have n: "None \<notin> set (queue ?st1)"
    using deliver_sentinel [of st sid "arrivals t"] assms(3) by blast
  have "\<exists>p' st'. snd (resume cfg sid At_wait st t) = Suspended p' st'
     \<and> (p' = At_wait \<or> p' = At_loop_yield \<or> p' = At_repoll_query)
     \<and> \<not> done_flag st' \<and> \<not> received_agent_response st'"
  proof (cases "queue ?st1")
    case Nil
    then show ?thesis
      using v assms(3,4) by (simp add: Let_def loop_top_def)
  next
    case (Cons evt q)
    then obtain e where "evt = Some e"
      using n by (cases evt) auto
    then show ?thesis
      using v Cons assms(3,4) by (simp add: Let_def)
  qed
  moreover have "snd (listen cfg sid skip (us @ [t])) = snd (resume cfg sid At_wait st t)"
    using assms(1)
    by (cases "snd (resume cfg sid At_wait st t)")
      (simp_all add: listen_append Let_def del: resume.simps)
  ultimately show ?thesis by simp
qed

section \<open>The input-state signal\<close>

text \<open>
  C4. An accepted input-state event whose content is \<^verbatim>\<open>waiting_input\<close> sets
  \<^verbatim>\<open>done\<close> and enqueues the stop sentinel exactly when
  \<^verbatim>\<open>received_agent_response\<close> is set; otherwise it is only enqueued. That flag is
  set by the accepted events whose type is substantive and by nothing else, so in a
  listen call \<^verbatim>\<open>done\<close> is set exactly when an accepted terminal session-state event
  has arrived, or an accepted \<^verbatim>\<open>waiting_input\<close> event after an accepted substantive
  one. Arrivals of any types with no accepted substantive event and no accepted terminal
  state among them leave \<^verbatim>\<open>done\<close> as it was; when they reach a call that waits and
  has received no substantive event, the call stays in its loop: it is suspended at the
  \<^verbatim>\<open>yield\<close> of an event, at the next wait or at the state query, with both flags
  unset. In a fresh listen call a \<^verbatim>\<open>waiting_input\<close> event is yielded and the loop
  goes back to waiting, with the long idle timeout: it has not ended.
\<close>

theorem waiting_input_needs_substantive:
  assumes "accepts sid raw" and "is_waiting_input raw"
  shows "handler sid SESSION_INPUT_STATE raw st =
      (if received_agent_response st
       then st\<lparr>done_flag := True,
               queue := queue st @ [Some (event_of sid SESSION_INPUT_STATE raw), None]\<rparr>
       else st\<lparr>queue := queue st @ [Some (event_of sid SESSION_INPUT_STATE raw)]\<rparr>, None) \<and>
    (\<not> received_agent_response st
       \<and> (\<forall>d\<in>set ds. \<not> (fst d \<in> SUBSTANTIVE_EVENTS \<and> accepts sid (snd d)))
       \<and> (\<forall>d\<in>set ds. \<not> (fst d = SESSION_STATE \<and> accepts sid (snd d)
                            \<and> is_terminal_state (snd d))) \<longrightarrow>
       done_flag (deliver sid ds st) = done_flag st
       \<and> \<not> received_agent_response (deliver sid ds st)) \<and>
    received_agent_response (deliver sid ds st)
      = (received_agent_response st
         \<or> (\<exists>d\<in>set ds. fst d \<in> SUBSTANTIVE_EVENTS \<and> accepts sid (snd d))) \<and>
    done_flag (deliver sid ds st)
      = (done_flag st
         \<or> (\<exists>raw'. (SESSION_STATE, raw') \<in> set ds \<and> accepts sid raw' \<and> is_terminal_state raw')
         \<or> (\<exists>pre raw' post. ds = pre @ (SESSION_INPUT_STATE, raw') # post
               \<and> accepts sid raw' \<and> is_waiting_input raw'
               \<and> (received_agent_response st
                  \<or> (\<exists>d\<in>set pre. fst d \<in> SUBSTANTIVE_EVENTS \<and> accepts sid (snd d))))) \<and>
    (snd (listen cfg sid skip ts) = Suspended p' st' \<longrightarrow>
       received_agent_response st'
         = (\<exists>d\<in>set (call_args (fst (listen cfg sid skip ts))).
              fst d \<in> SUBSTANTIVE_EVENTS \<and> accepts sid (snd d))
       \<and> done_flag st'
         = ((\<exists>raw'. (SESSION_STATE, raw') \<in> set (call_args (fst (listen cfg sid skip ts)))
                 \<and> accepts sid raw' \<and> is_terminal_state raw')
            \<or> (\<exists>pre raw' post.
                 call_args (fst (listen cfg sid skip ts)) = pre @ (SESSION_INPUT_STATE, raw') # post
                 \<and> accepts sid raw' \<and> is_waiting_input raw'
                 \<and> (\<exists>d\<in>set pre. fst d \<in> SUBSTANTIVE_EVENTS \<and> accepts sid (snd d))))) \<and>
    (snd (listen cfg sid skip us) = Suspended At_wait st0 \<and> \<not> received_agent_response st0
       \<and> \<not> isl (outcome t)
       \<and> (\<forall>d\<in>set (arrivals t). \<not> (fst d \<in> SUBSTANTIVE_EVENTS \<and> accepts sid (snd d)))
       \<and> (\<forall>d\<in>set (arrivals t). \<not> (fst d = SESSION_STATE \<and> accepts sid (snd d)
                                     \<and> is_terminal_state (snd d))) \<longrightarrow>
       (\<exists>p1 st1. snd (listen cfg sid skip (us @ [t])) = Suspended p1 st1
          \<and> (p1 = At_wait \<or> p1 = At_loop_yield \<or> p1 = At_repoll_query)
          \<and> \<not> done_flag st1 \<and> \<not> received_agent_response st1)) \<and>
    listen cfg sid True
      [\<lparr>arrivals = [(SESSION_INPUT_STATE, raw)], outcome = Inr v, consumer = c\<rparr>,
       \<lparr>arrivals = [], outcome = Inr v', consumer = Next\<rparr>] =
      ([Register, Wait (idle_timeout_s cfg), Call SESSION_INPUT_STATE raw,
        Yield Loop (Some (event_of sid SESSION_INPUT_STATE raw)), Wait (idle_timeout_s cfg)],
       Suspended At_wait init_lstate)"
proof -
  have h: "handler sid SESSION_INPUT_STATE raw st =
      (if received_agent_response st
       then st\<lparr>done_flag := True,
               queue := queue st @ [Some (event_of sid SESSION_INPUT_STATE raw), None]\<rparr>
       else st\<lparr>queue := queue st @ [Some (event_of sid SESSION_INPUT_STATE raw)]\<rparr>, None)"
    for st
    using assms
    by (auto simp: notions SUBSTANTIVE_EVENTS_def handler_def Let_def put_nowait_def
        on_substantive_def on_input_state_def on_session_state_def)
  have quiet: "\<not> received_agent_response st
       \<and> (\<forall>d\<in>set ds. \<not> (fst d \<in> SUBSTANTIVE_EVENTS \<and> accepts sid (snd d)))
       \<and> (\<forall>d\<in>set ds. \<not> (fst d = SESSION_STATE \<and> accepts sid (snd d)
                            \<and> is_terminal_state (snd d))) \<longrightarrow>
       done_flag (deliver sid ds st) = done_flag st
       \<and> \<not> received_agent_response (deliver sid ds st)"
    using deliver_without_signal [of st ds sid] by blast
  have flags: "received_agent_response st'
         = (\<exists>d\<in>set (call_args (fst (listen cfg sid skip ts))).
              fst d \<in> SUBSTANTIVE_EVENTS \<and> accepts sid (snd d))
       \<and> done_flag st'
         = ((\<exists>raw'. (SESSION_STATE, raw') \<in> set (call_args (fst (listen cfg sid skip ts)))
                 \<and> accepts sid raw' \<and> is_terminal_state raw')
            \<or> (\<exists>pre raw' post.
                 call_args (fst (listen cfg sid skip ts)) = pre @ (SESSION_INPUT_STATE, raw') # post
                 \<and> accepts sid raw' \<and> is_waiting_input raw'
                 \<and> (\<exists>d\<in>set pre. fst d \<in> SUBSTANTIVE_EVENTS \<and> accepts sid (snd d))))"
    if s: "snd (listen cfg sid skip ts) = Suspended p' st'"
    using listen_flags [OF s] by (simp add: deliver_received_iff deliver_done_iff)
  have stays: "\<exists>p1 st1. snd (listen cfg sid skip (us @ [t])) = Suspended p1 st1
          \<and> (p1 = At_wait \<or> p1 = At_loop_yield \<or> p1 = At_repoll_query)
          \<and> \<not> done_flag st1 \<and> \<not> received_agent_response st1"
    if a: "snd (listen cfg sid skip us) = Suspended At_wait st0 \<and> \<not> received_agent_response st0
       \<and> \<not> isl (outcome t)
       \<and> (\<forall>d\<in>set (arrivals t). \<not> (fst d \<in> SUBSTANTIVE_EVENTS \<and> accepts sid (snd d)))
       \<and> (\<forall>d\<in>set (arrivals t). \<not> (fst d = SESSION_STATE \<and> accepts sid (snd d)
                                     \<and> is_terminal_state (snd d)))"
  proof -
    have l: "snd (listen cfg sid skip us) = Suspended At_wait st0"
      using a by blast
    have "\<not> done_flag st0"
      using listen_sentinel [OF l] by blast
    moreover have "done_flag (deliver sid (arrivals t) st0) = done_flag st0
        \<and> \<not> received_agent_response (deliver sid (arrivals t) st0)"
      by (rule deliver_without_signal) (use a in blast)+
    ultimately show ?thesis
      using listen_stays_in_loop [OF l, of t] a by blast
  qed
  have fresh: "listen cfg sid True
      [\<lparr>arrivals = [(SESSION_INPUT_STATE, raw)], outcome = Inr v, consumer = c\<rparr>,
       \<lparr>arrivals = [], outcome = Inr v', consumer = Next\<rparr>] =
      ([Register, Wait (idle_timeout_s cfg), Call SESSION_INPUT_STATE raw,
        Yield Loop (Some (event_of sid SESSION_INPUT_STATE raw)), Wait (idle_timeout_s cfg)],
       Suspended At_wait init_lstate)"
  proof -
    have h0: "handler sid SESSION_INPUT_STATE raw
        \<lparr>queue = [], done_flag = False, received_agent_response = False\<rparr> =
        (\<lparr>queue = [Some (event_of sid SESSION_INPUT_STATE raw)], done_flag = False,
           received_agent_response = False\<rparr>, None)"
      using h [of "\<lparr>queue = [], done_flag = False, received_agent_response = False\<rparr>"]
      by simp
    show ?thesis
      by (simp add: listen_def activate_def loop_top_def after_def calls_def Let_def
          h0 init_lstate_def)
  qed
  show ?thesis
    using h [of st] quiet deliver_received_iff [of sid ds st] deliver_done_iff [of sid ds st]
      flags stays fresh
    by (intro conjI impI) blast+
qed

theorem waiting_input_needs_substantive_witness:
  "handler ''s1'' SESSION_INPUT_STATE
     [(''payload'', JDict [(''session_id'', JStr ''s1''),
                           (''data'', JDict [(''content'', JStr ''waiting_input'')])])]
     \<lparr>queue = [], done_flag = False, received_agent_response = True\<rparr> =
     (\<lparr>queue = [Some \<lparr>type = SESSION_INPUT_STATE, session_id = ''s1'', message_id = JNull,
                       data = JDict [(''content'', JStr ''waiting_input'')], metadata = JNull\<rparr>,
                 None],
       done_flag = True, received_agent_response = True\<rparr>, None) \<and>
   handler ''s1'' SESSION_INPUT_STATE
     [(''payload'', JDict [(''session_id'', JStr ''s1''),
                           (''data'', JDict [(''content'', JStr ''waiting_input'')])])]
     \<lparr>queue = [], done_flag = False, received_agent_response = False\<rparr> =
     (\<lparr>queue = [Some \<lparr>type = SESSION_INPUT_STATE, session_id = ''s1'', message_id = JNull,
                       data = JDict [(''content'', JStr ''waiting_input'')], metadata = JNull\<rparr>],
       done_flag = False, received_agent_response = False\<rparr>, None) \<and>
   done_flag (deliver ''s1''
     [(SESSION_WORK_LOG,
       [(''payload'', JDict [(''session_id'', JStr ''s1''),
                             (''data'', JDict [(''steps'', JList [])])])]),
      (SESSION_INPUT_STATE,
       [(''payload'', JDict [(''session_id'', JStr ''s1''),
                             (''data'', JDict [(''content'', JStr ''waiting_input'')])])]),
      (SESSION_INPUT_STATE,
       [(''payload'', JDict [(''session_id'', JStr ''s1''),
                             (''data'', JDict [(''content'', JStr ''waiting_input'')])])])]
     \<lparr>queue = [], done_flag = False, received_agent_response = False\<rparr>) = False \<and>
   received_agent_response (deliver ''s1''
     [(SESSION_WORK_LOG,
       [(''payload'', JDict [(''session_id'', JStr ''s1''),
                             (''data'', JDict [(''steps'', JList [])])])]),
      (SESSION_INPUT_STATE,
       [(''payload'', JDict [(''session_id'', JStr ''s1''),
                             (''data'', JDict [(''content'', JStr ''waiting_input'')])])]),
      (SESSION_INPUT_STATE,
       [(''payload'', JDict [(''session_id'', JStr ''s1''),
                             (''data'', JDict [(''content'', JStr ''waiting_input'')])])])]
     \<lparr>queue = [], done_flag = False, received_agent_response = False\<rparr>) = False \<and>
   (\<exists>p1 st1.
      snd (listen \<lparr>check_session_state = False, idle_timeout_s = 120, response_idle_timeout_s = 2\<rparr>
        ''s1'' True
        [\<lparr>arrivals =
           [(SESSION_WORK_LOG,
             [(''payload'', JDict [(''session_id'', JStr ''s1''),
                                   (''data'', JDict [(''steps'', JList [])])])]),
            (SESSION_INPUT_STATE,
             [(''payload'', JDict [(''session_id'', JStr ''s1''),
                                   (''data'', JDict [(''content'', JStr ''waiting_input'')])])])],
          outcome = Inr JNull, consumer = Next\<rparr>]) = Suspended p1 st1
      \<and> (p1 = At_wait \<or> p1 = At_loop_yield \<or> p1 = At_repoll_query)
      \<and> \<not> done_flag st1 \<and> \<not> received_agent_response st1) \<and>
   \<not> (\<exists>d\<in>set (call_args (fst
        (listen \<lparr>check_session_state = False, idle_timeout_s = 120, response_idle_timeout_s = 2\<rparr>
        ''s1'' True
        [\<lparr>arrivals =
           [(SESSION_WORK_LOG,
             [(''payload'', JDict [(''session_id'', JStr ''s1''),
                                   (''data'', JDict [(''steps'', JList [])])])]),
            (SESSION_INPUT_STATE,
             [(''payload'', JDict [(''session_id'', JStr ''s1''),
                                   (''data'', JDict [(''content'', JStr ''waiting_input'')])])])],
          outcome = Inr JNull, consumer = Next\<rparr>]))).
        fst d \<in> SUBSTANTIVE_EVENTS \<and> accepts ''s1'' (snd d))"
proof -
  let ?raw = "[(''payload'', JDict [(''session_id'', JStr ''s1''),
                           (''data'', JDict [(''content'', JStr ''waiting_input'')])])]"
  let ?log = "[(''payload'', JDict [(''session_id'', JStr ''s1''),
                             (''data'', JDict [(''steps'', JList [])])])]"
  let ?cfg = "\<lparr>check_session_state = False, idle_timeout_s = 120, response_idle_timeout_s = 2\<rparr>"
  let ?t = "\<lparr>arrivals = [(SESSION_WORK_LOG, ?log), (SESSION_INPUT_STATE, ?raw)],
             outcome = Inr JNull, consumer = Next\<rparr>"
  let ?st0 = "\<lparr>queue = [], done_flag = False, received_agent_response = False\<rparr>"
  let ?st1 = "\<lparr>queue = [], done_flag = False, received_agent_response = True\<rparr>"
  let ?st2 = "\<lparr>queue = [Some (event_of ''s1'' SESSION_INPUT_STATE ?raw)], done_flag = False,
               received_agent_response = False\<rparr>"
  let ?ds = "[(SESSION_WORK_LOG, ?log), (SESSION_INPUT_STATE, ?raw), (SESSION_INPUT_STATE, ?raw)]"
  note evaluate = listen_def activate_eq after_def calls_def loop_top_def drain.simps
    handler_def dict_get_def put_nowait_def on_substantive_def on_input_state_def
    on_session_state_def SUBSTANTIVE_EVENTS_def TERMINAL_STATES_def init_lstate_def
  have a: "accepts ''s1'' ?raw" and w: "is_waiting_input ?raw"
    by (simp_all add: notions dict_get_def)
  note T = waiting_input_needs_substantive [OF a w, where cfg = ?cfg and skip = True
      and ts = "[?t]" and p' = At_loop_yield and st' = ?st2 and us = "[]" and ?st0.0 = ?st0
      and t = ?t and v = JNull and c = Next and v' = JNull]
  note t1 = T [where st = ?st1 and ds = "[]"]
  note t0 = T [where st = ?st0 and ds = ?ds]
  have after_substantive: "handler ''s1'' SESSION_INPUT_STATE ?raw ?st1 =
      (?st1\<lparr>done_flag := True,
             queue := queue ?st1 @ [Some (event_of ''s1'' SESSION_INPUT_STATE ?raw), None]\<rparr>, None)"
    using t1 [THEN conjunct1] by simp
  have before: "handler ''s1'' SESSION_INPUT_STATE ?raw ?st0 =
      (?st0\<lparr>queue := queue ?st0 @ [Some (event_of ''s1'' SESSION_INPUT_STATE ?raw)]\<rparr>, None)"
    using t0 [THEN conjunct1] by simp
  have many: "done_flag (deliver ''s1'' ?ds ?st0) = done_flag ?st0
      \<and> \<not> received_agent_response (deliver ''s1'' ?ds ?st0)"
    using t0 [THEN conjunct2, THEN conjunct1]
    by (simp add: SUBSTANTIVE_EVENTS_def del: deliver.simps)
  have l0: "snd (listen ?cfg ''s1'' True []) = Suspended At_wait ?st0"
    by (simp add: listen_def activate_eq after_def init_lstate_def)
  have l1: "snd (listen ?cfg ''s1'' True [?t]) = Suspended At_loop_yield ?st2"
    by (simp add: evaluate event_of_def payload_of_def)
  have stays: "\<exists>p1 st1. snd (listen ?cfg ''s1'' True ([] @ [?t])) = Suspended p1 st1
      \<and> (p1 = At_wait \<or> p1 = At_loop_yield \<or> p1 = At_repoll_query)
      \<and> \<not> done_flag st1 \<and> \<not> received_agent_response st1"
    using t0 [THEN conjunct2, THEN conjunct2, THEN conjunct2, THEN conjunct2, THEN conjunct2,
        THEN conjunct1] l0
    by (simp add: SUBSTANTIVE_EVENTS_def)
  have unheard: "received_agent_response ?st2
      = (\<exists>d\<in>set (call_args (fst (listen ?cfg ''s1'' True [?t]))).
           fst d \<in> SUBSTANTIVE_EVENTS \<and> accepts ''s1'' (snd d))"
    using t0 [THEN conjunct2, THEN conjunct2, THEN conjunct2, THEN conjunct2, THEN conjunct1] l1
    by blast
  have c1: "handler ''s1'' SESSION_INPUT_STATE ?raw ?st1 =
     (\<lparr>queue = [Some \<lparr>type = SESSION_INPUT_STATE, session_id = ''s1'', message_id = JNull,
                       data = JDict [(''content'', JStr ''waiting_input'')], metadata = JNull\<rparr>,
                 None],
       done_flag = True, received_agent_response = True\<rparr>, None)"
    unfolding after_substantive by (simp add: event_of_def payload_of_def dict_get_def)
  have c2: "handler ''s1'' SESSION_INPUT_STATE ?raw ?st0 =
     (\<lparr>queue = [Some \<lparr>type = SESSION_INPUT_STATE, session_id = ''s1'', message_id = JNull,
                       data = JDict [(''content'', JStr ''waiting_input'')], metadata = JNull\<rparr>],
       done_flag = False, received_agent_response = False\<rparr>, None)"
    unfolding before by (simp add: event_of_def payload_of_def dict_get_def)
  have c3: "done_flag (deliver ''s1'' ?ds ?st0) = False"
    and c4: "received_agent_response (deliver ''s1'' ?ds ?st0) = False"
    using many by (simp_all del: deliver.simps)
  have c5: "\<exists>p1 st1. snd (listen ?cfg ''s1'' True [?t]) = Suspended p1 st1
      \<and> (p1 = At_wait \<or> p1 = At_loop_yield \<or> p1 = At_repoll_query)
      \<and> \<not> done_flag st1 \<and> \<not> received_agent_response st1"
    using stays by simp
  have c6: "\<not> (\<exists>d\<in>set (call_args (fst (listen ?cfg ''s1'' True [?t]))).
           fst d \<in> SUBSTANTIVE_EVENTS \<and> accepts ''s1'' (snd d))"
    using unheard by simp
  show ?thesis
    using c1 c2 c3 c4 c5 c6 by (intro conjI)
qed

section \<open>Registration, session ids and order\<close>






text \<open>What is yielded is a real event, and carries the requested session id.\<close>

lemma reals_hd: "reals q = x # xs \<Longrightarrow> x \<in> set q"
  by (metis filter_is_subset list.set_intros(1) reals_def subsetD)

lemma shape_yields:
  assumes "shape sid st cs r"
    and "\<forall>e. Some e \<in> set (queue st) \<longrightarrow> session_id e = sid"
    and "yielded cs = []"
  shows "None \<notin> set (yielded (fst r))
     \<and> (\<forall>e. Some e \<in> set (yielded (fst r)) \<longrightarrow> session_id e = sid)
     \<and> (\<forall>p' st'. snd r = Suspended p' st' \<longrightarrow>
          (\<forall>e. Some e \<in> set (queue st') \<longrightarrow> session_id e = sid))"
  using assms
proof (induction rule: shape.induct)
  case (Pops s p e q)
  have "Some e \<in> set (queue st)"
    using Pops reals_hd by blast
  then show ?case
    using Pops by (auto simp: yielded_append)
qed (simp_all add: yielded_append)

lemma resume_yields:
  assumes "\<forall>e. Some e \<in> set (queue st) \<longrightarrow> session_id e = sid"
  shows "None \<notin> set (yielded (fst (resume cfg sid p st t)))
     \<and> (\<forall>e. Some e \<in> set (yielded (fst (resume cfg sid p st t))) \<longrightarrow> session_id e = sid)
     \<and> (\<forall>p' st'. snd (resume cfg sid p st t) = Suspended p' st' \<longrightarrow>
          (\<forall>e. Some e \<in> set (queue st') \<longrightarrow> session_id e = sid))"
proof (cases "active p")
  case True
  show ?thesis
    using shape_yields [OF resume_shape [OF True, of sid t st cfg]]
      deliver_session_ids [OF assms, of "arrivals t"]
    by simp
next
  case False
  then consider "p = At_precheck_query" | "p = At_precheck_yield"
    by (cases p) simp_all
  then show ?thesis
    using assms
    by cases (auto simp: activate_eq terminal_event_session_id
        split: sum.splits option.splits demand.splits)
qed

lemma run_yields:
  assumes "\<forall>p st. g = Suspended p st \<longrightarrow> (\<forall>e. Some e \<in> set (queue st) \<longrightarrow> session_id e = sid)"
  shows "None \<notin> set (yielded (fst (run cfg sid g ts)))
     \<and> (\<forall>e. Some e \<in> set (yielded (fst (run cfg sid g ts))) \<longrightarrow> session_id e = sid)"
proof (rule run_rule [where
      I = "\<lambda>g. \<forall>p st. g = Suspended p st \<longrightarrow>
                 (\<forall>e. Some e \<in> set (queue st) \<longrightarrow> session_id e = sid)"
      and R = "\<lambda>g acts g'. None \<notin> set (yielded acts)
                 \<and> (\<forall>e. Some e \<in> set (yielded acts) \<longrightarrow> session_id e = sid)"])
  show "\<forall>p st. g = Suspended p st \<longrightarrow> (\<forall>e. Some e \<in> set (queue st) \<longrightarrow> session_id e = sid)"
    by (rule assms)
next
  fix p st t
  assume "\<forall>p' st'. Suspended p st = Suspended p' st' \<longrightarrow>
      (\<forall>e. Some e \<in> set (queue st') \<longrightarrow> session_id e = sid)"
  then have "\<forall>e. Some e \<in> set (queue st) \<longrightarrow> session_id e = sid"
    by simp
  from resume_yields [OF this, of cfg p t]
  show "(None \<notin> set (yielded (fst (resume cfg sid p st t)))
      \<and> (\<forall>e. Some e \<in> set (yielded (fst (resume cfg sid p st t))) \<longrightarrow> session_id e = sid))
     \<and> (\<forall>p' st'. snd (resume cfg sid p st t) = Suspended p' st' \<longrightarrow>
          (\<forall>e. Some e \<in> set (queue st') \<longrightarrow> session_id e = sid))"
    by blast
qed (auto simp: yielded_append)

lemma listen_yields:
  "None \<notin> set (yielded (fst (listen cfg sid skip ts)))
   \<and> (\<forall>e. Some e \<in> set (yielded (fst (listen cfg sid skip ts))) \<longrightarrow> session_id e = sid)"
proof (cases "\<not> skip \<and> check_session_state cfg")
  case True
  have l: "listen cfg sid skip ts
      = after [Query] (run cfg sid (Suspended At_precheck_query init_lstate) ts)"
    using True by (simp add: listen_def)
  show ?thesis
    using run_yields [of "Suspended At_precheck_query init_lstate" sid cfg ts]
    unfolding l by (simp add: yielded_append)
next
  case False
  have l: "listen cfg sid skip ts = after [Register, Wait (idle_timeout_s cfg)]
      (run cfg sid (Suspended At_wait init_lstate) ts)"
    using False by (auto simp: listen_def activate_eq after_def)
  show ?thesis
    using run_yields [of "Suspended At_wait init_lstate" sid cfg ts]
    unfolding l by (simp add: yielded_append)
qed

lemma chat_filter_subset:
  "e \<in> set (fst (chat_filter fromisoformat cutoff evs)) \<Longrightarrow> Some e \<in> set evs"
  by (induction fromisoformat cutoff evs rule: chat_filter.induct)
    (auto simp: Let_def split: sum.splits bool.splits if_splits)

text \<open>
  C10. The event that the observer builds from an envelope has the requested session id
  as its \<^verbatim>\<open>session_id\<close>, whatever the envelope's own (the events it adds to the queue
  are these); every event that a listen call yields, the synthesized ones included, and
  so every event that \<^verbatim>\<open>chat\<close> yields, carries the requested session id.
\<close>

theorem yielded_events_carry_requested_session:
  "session_id (event_of sid event raw) = sid \<and>
   (\<forall>x. x \<in> set (queue (fst (handler sid event raw st))) \<longrightarrow>
        x \<in> set (queue st) \<or> x = None \<or> x = Some (event_of sid event raw)) \<and>
   (\<forall>e. Some e \<in> set (yielded (fst (listen cfg sid skip ts))) \<longrightarrow> session_id e = sid) \<and>
   (\<forall>e. e \<in> set (fst (chat cfg sid fromisoformat now ts)) \<longrightarrow> session_id e = sid)"
proof (intro conjI)
  show "session_id (event_of sid event raw) = sid"
    by (simp add: event_of_def)
  show "\<forall>x. x \<in> set (queue (fst (handler sid event raw st))) \<longrightarrow>
        x \<in> set (queue st) \<or> x = None \<or> x = Some (event_of sid event raw)"
    by (cases "accepts sid raw") (auto simp: handler_queue handler_rejects)
  show "\<forall>e. Some e \<in> set (yielded (fst (listen cfg sid skip ts))) \<longrightarrow> session_id e = sid"
    using listen_yields by blast
  show "\<forall>e. e \<in> set (fst (chat cfg sid fromisoformat now ts)) \<longrightarrow> session_id e = sid"
    using listen_yields [of cfg sid True ts] chat_filter_subset
    unfolding chat_def Let_def by blast
qed

theorem yielded_events_carry_requested_session_witness:
  "session_id (event_of ''s1'' SESSION_TEXT
      [(''payload'', JDict [(''session_id'', JNull), (''data'', JStr ''hi'')])]) = ''s1'' \<and>
   yielded (fst (listen
      \<lparr>check_session_state = False, idle_timeout_s = 120, response_idle_timeout_s = 2\<rparr> ''s1'' True
      [\<lparr>arrivals = [(SESSION_TEXT, [(''payload'', JDict [(''data'', JStr ''hi'')])])],
        outcome = Inr JNull, consumer = Next\<rparr>])) =
     [Some \<lparr>type = SESSION_TEXT, session_id = ''s1'', message_id = JNull,
            data = JStr ''hi'', metadata = JNull\<rparr>] \<and>
   session_id \<lparr>type = SESSION_TEXT, session_id = ''s1'', message_id = JNull,
            data = JStr ''hi'', metadata = JNull\<rparr> = ''s1''"
proof -
  let ?cfg = "\<lparr>check_session_state = False, idle_timeout_s = 120, response_idle_timeout_s = 2\<rparr>"
  let ?ts = "[\<lparr>arrivals = [(SESSION_TEXT, [(''payload'', JDict [(''data'', JStr ''hi'')])])],
        outcome = Inr JNull, consumer = Next\<rparr>]"
  let ?e = "\<lparr>type = SESSION_TEXT, session_id = ''s1'', message_id = JNull,
            data = JStr ''hi'', metadata = JNull\<rparr>"
  have y: "yielded (fst (listen ?cfg ''s1'' True ?ts)) = [Some ?e]"
    by (simp add: listen_def activate_eq after_def calls_def loop_top_def
        handler_def dict_get_def put_nowait_def on_substantive_def on_input_state_def
        on_session_state_def SUBSTANTIVE_EVENTS_def)
  have "Some ?e \<in> set (yielded (fst (listen ?cfg ''s1'' True ?ts)))"
    unfolding y by simp
  then have "session_id ?e = ''s1''"
    using yielded_events_carry_requested_session
      [of "''s1''" SESSION_TEXT "[(''payload'', JDict [(''session_id'', JNull), (''data'', JStr ''hi'')])]"
        init_lstate ?cfg True ?ts "\<lambda>s. None" 0]
    by blast
  then show ?thesis
    using y yielded_events_carry_requested_session
      [of "''s1''" SESSION_TEXT "[(''payload'', JDict [(''session_id'', JNull), (''data'', JStr ''hi'')])]"
        init_lstate ?cfg True ?ts "\<lambda>s. None" 0]
    by simp
qed

text \<open>
  The events taken from the queue are a prefix of the events the observer accepted, in
  the order of the calls; when the generator has not been left by an exception, they
  and the events still queued are all of them.
\<close>

lemma shape_order:
  assumes "shape sid st cs r" and "queue_yields cs = []"
  shows "call_args (fst r) = call_args cs
     \<and> prefix (queue_yields (fst r) @ pending (snd r)) (reals (queue st))
     \<and> ((\<forall>e. snd r \<noteq> Finished (Raised e)) \<longrightarrow>
          queue_yields (fst r) @ pending (snd r) = reals (queue st))
     \<and> (\<forall>p' st'. snd r = Suspended p' st' \<longrightarrow> active p')"
  using assms
  by (induction rule: shape.induct) (auto simp: queue_yields_append call_args_append)

lemma resume_order:
  assumes "active p \<or> reals (queue st) = []"
  shows "prefix (queue_yields (fst (resume cfg sid p st t)) @ pending (snd (resume cfg sid p st t)))
        (reals (queue st) @ accepted sid (call_args (fst (resume cfg sid p st t))))
     \<and> ((\<forall>e. snd (resume cfg sid p st t) \<noteq> Finished (Raised e)) \<longrightarrow>
          queue_yields (fst (resume cfg sid p st t)) @ pending (snd (resume cfg sid p st t))
          = reals (queue st) @ accepted sid (call_args (fst (resume cfg sid p st t))))
     \<and> (\<forall>p' st'. snd (resume cfg sid p st t) = Suspended p' st' \<longrightarrow>
          active p' \<or> reals (queue st') = [])"
proof (cases "active p")
  case True
  show ?thesis
    using shape_order [OF resume_shape [OF True, of sid t st cfg]]
    by (simp add: deliver_reals)
next
  case False
  then consider "p = At_precheck_query" | "p = At_precheck_yield"
    by (cases p) simp_all
  then show ?thesis
    using assms False
    by cases (auto simp: activate_eq accepted_def reals_def
        split: sum.splits option.splits demand.splits)
qed

lemma run_order:
  assumes "\<forall>p st. g = Suspended p st \<longrightarrow> active p \<or> reals (queue st) = []"
  shows "prefix (queue_yields (fst (run cfg sid g ts)) @ pending (snd (run cfg sid g ts)))
        (pending g @ accepted sid (call_args (fst (run cfg sid g ts))))
     \<and> ((\<forall>e. snd (run cfg sid g ts) \<noteq> Finished (Raised e)) \<longrightarrow>
          queue_yields (fst (run cfg sid g ts)) @ pending (snd (run cfg sid g ts))
          = pending g @ accepted sid (call_args (fst (run cfg sid g ts))))"
proof (rule run_rule [where
      I = "\<lambda>g. \<forall>p st. g = Suspended p st \<longrightarrow> active p \<or> reals (queue st) = []"
      and R = "\<lambda>g acts g'.
        prefix (queue_yields acts @ pending g') (pending g @ accepted sid (call_args acts))
        \<and> ((\<forall>e. g' \<noteq> Finished (Raised e)) \<longrightarrow>
             queue_yields acts @ pending g' = pending g @ accepted sid (call_args acts))"])
  show "\<forall>p st. g = Suspended p st \<longrightarrow> active p \<or> reals (queue st) = []"
    by (rule assms)
next
  fix g :: gen
  show "prefix (queue_yields [] @ pending g) (pending g @ accepted sid (call_args []))
     \<and> ((\<forall>e. g \<noteq> Finished (Raised e)) \<longrightarrow>
          queue_yields [] @ pending g = pending g @ accepted sid (call_args []))"
    by (simp add: accepted_def)
next
  fix p st t
  assume "\<forall>p' st'. Suspended p st = Suspended p' st' \<longrightarrow> active p' \<or> reals (queue st') = []"
  then have "active p \<or> reals (queue st) = []"
    by simp
  from resume_order [OF this, of cfg sid t]
  show "(prefix (queue_yields (fst (resume cfg sid p st t)) @ pending (snd (resume cfg sid p st t)))
          (pending (Suspended p st) @ accepted sid (call_args (fst (resume cfg sid p st t))))
       \<and> ((\<forall>e. snd (resume cfg sid p st t) \<noteq> Finished (Raised e)) \<longrightarrow>
            queue_yields (fst (resume cfg sid p st t)) @ pending (snd (resume cfg sid p st t))
            = pending (Suspended p st) @ accepted sid (call_args (fst (resume cfg sid p st t)))))
     \<and> (\<forall>p' st'. snd (resume cfg sid p st t) = Suspended p' st' \<longrightarrow>
          active p' \<or> reals (queue st') = [])"
    by simp
next
  fix g a p st b g'
  assume one: "prefix (queue_yields a @ pending (Suspended p st)) (pending g @ accepted sid (call_args a))
     \<and> ((\<forall>e. Suspended p st \<noteq> Finished (Raised e)) \<longrightarrow>
          queue_yields a @ pending (Suspended p st) = pending g @ accepted sid (call_args a))"
    and rest: "prefix (queue_yields b @ pending g') (pending (Suspended p st) @ accepted sid (call_args b))
     \<and> ((\<forall>e. g' \<noteq> Finished (Raised e)) \<longrightarrow>
          queue_yields b @ pending g' = pending (Suspended p st) @ accepted sid (call_args b))"
  have eq: "queue_yields a @ reals (queue st) = pending g @ accepted sid (call_args a)"
    using one by simp
  have "prefix (queue_yields a @ queue_yields b @ pending g')
      (queue_yields a @ reals (queue st) @ accepted sid (call_args b))"
    using rest by simp
  then have p: "prefix (queue_yields (a @ b) @ pending g')
      (pending g @ accepted sid (call_args (a @ b)))"
    using eq by (simp add: queue_yields_append call_args_append accepted_append flip: append_assoc)
  have "queue_yields (a @ b) @ pending g' = pending g @ accepted sid (call_args (a @ b))"
    if "\<forall>e. g' \<noteq> Finished (Raised e)"
  proof -
    have "queue_yields b @ pending g' = reals (queue st) @ accepted sid (call_args b)"
      using rest that by simp
    then have "queue_yields a @ queue_yields b @ pending g'
        = (queue_yields a @ reals (queue st)) @ accepted sid (call_args b)"
      by simp
    then show ?thesis
      unfolding eq by (simp add: queue_yields_append call_args_append accepted_append)
  qed
  with p show "prefix (queue_yields (a @ b) @ pending g')
        (pending g @ accepted sid (call_args (a @ b)))
     \<and> ((\<forall>e. g' \<noteq> Finished (Raised e)) \<longrightarrow>
          queue_yields (a @ b) @ pending g' = pending g @ accepted sid (call_args (a @ b)))"
    by blast
qed

lemma queue_yields_subseq: "subseq (queue_yields acts) (yielded acts)"
  by (induction acts rule: queue_yields.induct) auto

lemma listen_order:
  "prefix (queue_yields (fst (listen cfg sid skip ts)))
     (accepted sid (call_args (fst (listen cfg sid skip ts)))) \<and>
   (snd (listen cfg sid skip ts) = Finished Returned \<longrightarrow>
      queue_yields (fst (listen cfg sid skip ts))
        = accepted sid (call_args (fst (listen cfg sid skip ts))))"
proof -
  obtain acts g where start: "listen cfg sid skip ts = after acts (run cfg sid g ts)"
    and acts: "queue_yields acts = []" "call_args acts = []"
    and g: "pending g = []" "\<forall>p st. g = Suspended p st \<longrightarrow> active p \<or> reals (queue st) = []"
  proof (cases "\<not> skip \<and> check_session_state cfg")
    case True
    show ?thesis
      by (rule that [of "[Query]" "Suspended At_precheck_query init_lstate"])
        (use True in \<open>simp_all add: listen_def reals_def\<close>)
  next
    case False
    show ?thesis
      by (rule that [of "[Register, Wait (idle_timeout_s cfg)]" "Suspended At_wait init_lstate"])
        (use False in \<open>auto simp: listen_def activate_eq after_def reals_def\<close>)
  qed
  let ?r = "run cfg sid g ts"
  have "prefix (queue_yields (fst ?r) @ pending (snd ?r)) (accepted sid (call_args (fst ?r)))"
    and "(\<forall>e. snd ?r \<noteq> Finished (Raised e)) \<longrightarrow>
      queue_yields (fst ?r) @ pending (snd ?r) = accepted sid (call_args (fst ?r))"
    using run_order [OF g(2), of cfg sid ts] g(1) by simp_all
  then show ?thesis
    unfolding start using acts
    by (auto simp: queue_yields_append call_args_append dest: append_prefixD)
qed

lemma listen_account:
  assumes "\<forall>e. snd (listen cfg sid skip ts) \<noteq> Finished (Raised e)"
  shows "queue_yields (fst (listen cfg sid skip ts)) @ pending (snd (listen cfg sid skip ts))
     = accepted sid (call_args (fst (listen cfg sid skip ts)))"
proof -
  obtain acts g where start: "listen cfg sid skip ts = after acts (run cfg sid g ts)"
    and acts: "queue_yields acts = []" "call_args acts = []"
    and g: "pending g = []" "\<forall>p st. g = Suspended p st \<longrightarrow> active p \<or> reals (queue st) = []"
  proof (cases "\<not> skip \<and> check_session_state cfg")
    case True
    show ?thesis
      by (rule that [of "[Query]" "Suspended At_precheck_query init_lstate"])
        (use True in \<open>simp_all add: listen_def reals_def\<close>)
  next
    case False
    show ?thesis
      by (rule that [of "[Register, Wait (idle_timeout_s cfg)]" "Suspended At_wait init_lstate"])
        (use False in \<open>auto simp: listen_def activate_eq after_def reals_def\<close>)
  qed
  let ?r = "run cfg sid g ts"
  have "(\<forall>e. snd ?r \<noteq> Finished (Raised e)) \<longrightarrow>
      queue_yields (fst ?r) @ pending (snd ?r) = accepted sid (call_args (fst ?r))"
    using run_order [OF g(2), of cfg sid ts] g(1) by simp
  then show ?thesis
    using assms unfolding start using acts
    by (simp add: queue_yields_append call_args_append)
qed

text \<open>
  With nothing arriving, nothing raised and a consumer that goes on, every resumption
  ends the generator by a return or brings it closer to an empty queue; each resumption
  yields at most one event.
\<close>

lemma drain_lag:
  "snd (drain st) = Finished Returned
   \<or> (\<exists>st'. snd (drain st) = Suspended At_drain_yield st'
         \<and> Suc (length (reals (queue st'))) = length (reals (queue st)))"
  using drain_cases [of st] by auto

lemma resume_quiet_progress:
  assumes "active p" and "quiet t"
  shows "snd (resume cfg sid p st t) = Finished Returned
     \<or> (\<exists>p' st'. snd (resume cfg sid p st t) = Suspended p' st' \<and> active p'
           \<and> (reals (queue st) = [] \<longrightarrow> reals (queue st') = [])
           \<and> (reals (queue st) \<noteq> [] \<longrightarrow>
                2 * length (reals (queue st')) + lag p' < 2 * length (reals (queue st)) + lag p))"
proof -
  have t: "arrivals t = []" "consumer t = Next"
    using assms(2) by (simp_all add: quiet_def)
  obtain v where v: "outcome t = Inr v"
    using assms(2) by (cases "outcome t") (simp_all add: quiet_def)
  let ?goal = "\<lambda>r. snd r = Finished Returned
     \<or> (\<exists>p' st'. snd r = Suspended p' st' \<and> active p'
           \<and> (reals (queue st) = [] \<longrightarrow> reals (queue st') = [])
           \<and> (reals (queue st) \<noteq> [] \<longrightarrow>
                2 * length (reals (queue st')) + lag p' < 2 * length (reals (queue st)) + lag p))"
  have d: "?goal (drain st)" if "1 \<le> lag p \<or> (\<exists>q. queue st = None # q) \<or> queue st = []"
  proof -
    consider "snd (drain st) = Finished Returned"
      | st' where "snd (drain st) = Suspended At_drain_yield st'"
          "Suc (length (reals (queue st'))) = length (reals (queue st))"
      using drain_lag [of st] by blast
    then show ?thesis
    proof cases
      case 1
      then show ?thesis by simp
    next
      case 2
      have "reals (queue st) \<noteq> []"
        using 2(2) by auto
      moreover have "2 * length (reals (queue st')) + lag At_drain_yield
          < 2 * length (reals (queue st)) + lag p"
        using 2(2) by simp
      ultimately show ?thesis using 2(1) by simp
    qed
  qed
  have l: "?goal (loop_top cfg st)" if "1 \<le> lag p \<or> queue st = []"
  proof (cases "done_flag st")
    case True
    then show ?thesis using d that by (auto simp: loop_top_def)
  next
    case False
    then show ?thesis using that by (auto simp: loop_top_def Let_def reals_def)
  qed
  show ?thesis
  proof (cases p)
    case At_wait
    show ?thesis
    proof (cases "queue st")
      case Nil
      have "?goal ([Query], Suspended At_repoll_query st)"
        using Nil by (simp add: reals_def)
      then show ?thesis
        unfolding At_wait using v t Nil d l At_wait by (simp add: Let_def)
    next
      case (Cons evt q)
      show ?thesis
      proof (cases evt)
        case None
        have "drain (st\<lparr>queue := q\<rparr>) = drain st"
          using drain_None [of st q] Cons None by simp
        then show ?thesis
          unfolding At_wait using v t Cons None d At_wait by (simp add: Let_def)
      next
        case (Some e)
        then show ?thesis
          unfolding At_wait using v t Cons At_wait by (simp add: Let_def reals_def)
      qed
    qed
  next
    case At_repoll_query
    have l': "?goal (loop_top cfg st)"
      using l At_repoll_query by simp
    have "?goal ([Yield Repoll (Some ev)], Suspended At_repoll_yield st)" for ev
      using At_repoll_query by simp
    then show ?thesis
      unfolding At_repoll_query using v t l' At_repoll_query
      by (auto simp: Let_def split: sum.splits option.splits dest: terminal_event_Exception)
  next
    case At_repoll_yield
    show ?thesis
      unfolding At_repoll_yield using t d At_repoll_yield by (simp add: Let_def)
  next
    case At_loop_yield
    show ?thesis
      unfolding At_loop_yield using t l At_loop_yield by (simp add: Let_def)
  next
    case At_drain_yield
    show ?thesis
      unfolding At_drain_yield using t d At_drain_yield by (simp add: Let_def)
  qed (use assms(1) in simp_all)
qed

lemma run_quiet_drains:
  assumes "active p" and "\<forall>t\<in>set ts. quiet t"
    and "reals (queue st) = [] \<or> 2 * length (reals (queue st)) + lag p \<le> length ts"
  shows "pending (snd (run cfg sid (Suspended p st) ts)) = []
     \<and> (\<forall>e. snd (run cfg sid (Suspended p st) ts) \<noteq> Finished (Raised e))"
  using assms
proof (induction ts arbitrary: p st)
  case Nil
  then show ?case by auto
next
  case (Cons t ts)
  have eq: "snd (run cfg sid (Suspended p st) (t # ts))
      = snd (run cfg sid (snd (resume cfg sid p st t)) ts)"
    by (simp add: Let_def del: resume.simps)
  have qt: "quiet t"
    using Cons.prems(2) by simp
  consider "snd (resume cfg sid p st t) = Finished Returned"
    | p' st' where "snd (resume cfg sid p st t) = Suspended p' st'" "active p'"
        "reals (queue st) = [] \<longrightarrow> reals (queue st') = []"
        "reals (queue st) \<noteq> [] \<longrightarrow>
           2 * length (reals (queue st')) + lag p' < 2 * length (reals (queue st)) + lag p"
    using resume_quiet_progress [OF Cons.prems(1) qt, of cfg sid st] by blast
  then show ?case
  proof cases
    case 1
    then show ?thesis unfolding eq by simp
  next
    case 2
    have "reals (queue st') = [] \<or> 2 * length (reals (queue st')) + lag p' \<le> length ts"
      using 2(3,4) Cons.prems(3) by (cases "reals (queue st) = []") auto
    then have "pending (snd (run cfg sid (Suspended p' st') ts)) = []
       \<and> (\<forall>e. snd (run cfg sid (Suspended p' st') ts) \<noteq> Finished (Raised e))"
      using Cons.IH [OF 2(2), of st'] Cons.prems(2) by simp
    then show ?thesis unfolding eq 2(1) .
  qed
qed

lemma shape_one_yield:
  assumes "shape sid st cs r" and "yielded cs = []"
  shows "length (yielded (fst r)) \<le> 1"
  using assms by (induction rule: shape.induct) (auto simp: yielded_append)

lemma resume_one_yield: "length (yielded (fst (resume cfg sid p st t))) \<le> 1"
proof (cases "active p")
  case True
  show ?thesis
    using shape_one_yield [OF resume_shape [OF True, of sid t st cfg]] by simp
next
  case False
  then consider "p = At_precheck_query" | "p = At_precheck_yield"
    by (cases p) simp_all
  then show ?thesis
    by cases (auto simp: activate_eq split: sum.splits option.splits demand.splits)
qed

lemma run_one_yield: "length (yielded (fst (run cfg sid g ts))) \<le> length ts"
proof (induction ts arbitrary: g)
  case Nil
  show ?case by (cases g) simp_all
next
  case (Cons t ts)
  show ?case
  proof (cases g)
    case (Finished s)
    then show ?thesis by simp
  next
    case (Suspended p st)
    show ?thesis
      using Cons.IH [of "snd (resume cfg sid p st t)"] resume_one_yield [of cfg sid p st t]
      by (simp add: Suspended Let_def yielded_append del: resume.simps)
  qed
qed

lemma listen_one_yield: "length (yielded (fst (listen cfg sid skip ts))) \<le> length ts"
  using run_one_yield [of cfg sid _ ts]
  by (simp add: listen_def Let_def activate_eq yielded_append)

text \<open>
  The timed wait takes the oldest event: when the wait ends by itself and an event is in
  the queue after the arrivals, the next action is the \<^verbatim>\<open>yield\<close> of that event.
\<close>

lemma resume_wait_pops:
  assumes "queue st = [] \<or> hd (queue st) \<noteq> None" and "\<not> isl (outcome t)"
    and "reals (queue st) @ accepted sid (arrivals t) = x # xs"
  shows "\<exists>q. resume cfg sid At_wait st t
       = (calls (arrivals t) @ [Yield Loop x],
          Suspended At_loop_yield ((deliver sid (arrivals t) st)\<lparr>queue := q\<rparr>))
     \<and> reals q = xs \<and> queue (deliver sid (arrivals t) st) = x # q"
proof -
  let ?st1 = "deliver sid (arrivals t) st"
  obtain v where v: "outcome t = Inr v"
    using assms(2) by (cases "outcome t") simp_all
  have r: "reals (queue ?st1) = x # xs"
    using assms(3) by (simp add: deliver_reals)
  then obtain evt q where q: "queue ?st1 = evt # q"
    by (cases "queue ?st1") (simp_all add: reals_def)
  have "evt \<noteq> None"
    using deliver_head [OF assms(1), of sid "arrivals t"] q by simp
  then have "evt = x" "reals q = xs"
    using r q by (simp_all add: reals_def)
  then show ?thesis
    using v q \<open>evt \<noteq> None\<close> by (auto simp: Let_def after_def)
qed

lemma listen_dispatch:
  assumes "snd (listen cfg sid skip us) = Suspended At_wait st" and "\<not> isl (outcome t)"
    and "reals (queue st) @ accepted sid (arrivals t) = x # xs"
  shows "fst (listen cfg sid skip (us @ [t]))
       = fst (listen cfg sid skip us) @ calls (arrivals t) @ [Yield Loop x]
     \<and> (\<exists>st'. snd (listen cfg sid skip (us @ [t])) = Suspended At_loop_yield st'
           \<and> reals (queue st') = xs)"
proof -
  have "None \<notin> set (queue st)"
    using listen_sentinel [OF assms(1)] by auto
  then have h: "queue st = [] \<or> hd (queue st) \<noteq> None"
    using hd_in_set [of "queue st"] by metis
  obtain q where q: "resume cfg sid At_wait st t
       = (calls (arrivals t) @ [Yield Loop x],
          Suspended At_loop_yield ((deliver sid (arrivals t) st)\<lparr>queue := q\<rparr>))"
      "reals q = xs"
    using resume_wait_pops [OF h assms(2,3), of cfg] by blast
  have "run cfg sid (Suspended At_wait st) [t] = resume cfg sid At_wait st t"
    unfolding q by (simp add: q Let_def after_def del: resume.simps)
  then show ?thesis
    using assms(1) q by (simp add: listen_append del: run.simps resume.simps)
qed

lemma listen_drains:
  assumes "snd (listen cfg sid skip us) = Suspended p st" and "active p"
    and "\<forall>t\<in>set vs. quiet t"
    and "2 * length (reals (queue st)) + 2 \<le> length vs"
  shows "queue_yields (fst (listen cfg sid skip (us @ vs)))
       = accepted sid (call_args (fst (listen cfg sid skip (us @ vs))))
     \<and> (\<forall>e. snd (listen cfg sid skip (us @ vs)) \<noteq> Finished (Raised e))"
proof -
  have "lag p \<le> 2"
    by (cases p) simp_all
  then have "reals (queue st) = [] \<or> 2 * length (reals (queue st)) + lag p \<le> length vs"
    using assms(4) by simp
  from run_quiet_drains [OF assms(2,3) this, of cfg sid]
  have r: "pending (snd (listen cfg sid skip (us @ vs))) = []"
    "\<forall>e. snd (listen cfg sid skip (us @ vs)) \<noteq> Finished (Raised e)"
    using assms(1) by (simp_all add: listen_append del: run.simps)
  show ?thesis
    using listen_account [OF r(2)] r by simp
qed

lemma listen_goes_on:
  assumes "snd (listen cfg sid skip us) = Suspended At_loop_yield st" and "consumer t = Next"
    and "\<not> done_flag (deliver sid (arrivals t) st)"
  shows "listen cfg sid skip (us @ [t])
     = (fst (listen cfg sid skip us) @ calls (arrivals t)
          @ [Wait (if received_agent_response (deliver sid (arrivals t) st)
                   then response_idle_timeout_s cfg else idle_timeout_s cfg)],
        Suspended At_wait (deliver sid (arrivals t) st))"
  using assms by (simp add: listen_append Let_def after_def loop_top_def)

text \<open>
  C9. In every listen call the events yielded from the queue are, one for one and in
  the same order, the events built from the envelopes that passed the session test, as
  the transport handed them to the observer: a prefix of them while the call runs or
  when it is cancelled, all of them when the call has returned; as long as no exception
  has left the generator, the events yielded and the events still queued are together
  exactly the accepted ones. Nothing is merged, dropped or reordered, and a resumption
  yields at most one event. The events are yielded while the call listens: when the
  timed wait ends by itself with an accepted event queued or just arrived, the next
  action is the \<^verbatim>\<open>yield\<close> of the oldest such event, and the generator is suspended
  at that \<^verbatim>\<open>yield\<close>; when the consumer comes back and \<^verbatim>\<open>done\<close> is not set, the
  loop waits again; and from any point of a registered call, when nothing more arrives,
  nothing is raised and the consumer goes on, two resumptions for each queued event and
  two more leave every accepted event yielded.
\<close>

theorem yields_follow_arrival_order:
  "prefix (queue_yields (fst (listen cfg sid skip ts)))
     (accepted sid (call_args (fst (listen cfg sid skip ts)))) \<and>
   (snd (listen cfg sid skip ts) = Finished Returned \<longrightarrow>
      queue_yields (fst (listen cfg sid skip ts))
        = accepted sid (call_args (fst (listen cfg sid skip ts)))) \<and>
   subseq (queue_yields (fst (listen cfg sid skip ts))) (yielded (fst (listen cfg sid skip ts))) \<and>
   ((\<forall>e. snd (listen cfg sid skip ts) \<noteq> Finished (Raised e)) \<longrightarrow>
      queue_yields (fst (listen cfg sid skip ts)) @ pending (snd (listen cfg sid skip ts))
        = accepted sid (call_args (fst (listen cfg sid skip ts)))) \<and>
   length (yielded (fst (listen cfg sid skip ts))) \<le> length ts \<and>
   (snd (listen cfg sid skip us) = Suspended At_wait st \<and> \<not> isl (outcome t)
      \<and> reals (queue st) @ accepted sid (arrivals t) = x # xs \<longrightarrow>
      fst (listen cfg sid skip (us @ [t]))
        = fst (listen cfg sid skip us) @ calls (arrivals t) @ [Yield Loop x]
      \<and> (\<exists>st1. snd (listen cfg sid skip (us @ [t])) = Suspended At_loop_yield st1
            \<and> reals (queue st1) = xs)) \<and>
   (snd (listen cfg sid skip us') = Suspended At_loop_yield st' \<and> consumer t' = Next
      \<and> \<not> done_flag (deliver sid (arrivals t') st') \<longrightarrow>
      listen cfg sid skip (us' @ [t'])
        = (fst (listen cfg sid skip us') @ calls (arrivals t')
             @ [Wait (if received_agent_response (deliver sid (arrivals t') st')
                      then response_idle_timeout_s cfg else idle_timeout_s cfg)],
           Suspended At_wait (deliver sid (arrivals t') st'))) \<and>
   (snd (listen cfg sid skip ws) = Suspended p st2 \<and> active p \<and> (\<forall>t\<in>set vs. quiet t)
      \<and> 2 * length (reals (queue st2)) + 2 \<le> length vs \<longrightarrow>
      queue_yields (fst (listen cfg sid skip (ws @ vs)))
        = accepted sid (call_args (fst (listen cfg sid skip (ws @ vs))))
      \<and> (\<forall>e. snd (listen cfg sid skip (ws @ vs)) \<noteq> Finished (Raised e)))"
proof (intro conjI impI)
  show "prefix (queue_yields (fst (listen cfg sid skip ts)))
     (accepted sid (call_args (fst (listen cfg sid skip ts))))"
    using listen_order [of cfg sid skip ts] by blast
  show "queue_yields (fst (listen cfg sid skip ts))
        = accepted sid (call_args (fst (listen cfg sid skip ts)))"
    if "snd (listen cfg sid skip ts) = Finished Returned"
    using listen_order [of cfg sid skip ts] that by blast
  show "subseq (queue_yields (fst (listen cfg sid skip ts))) (yielded (fst (listen cfg sid skip ts)))"
    by (rule queue_yields_subseq)
  show "queue_yields (fst (listen cfg sid skip ts)) @ pending (snd (listen cfg sid skip ts))
        = accepted sid (call_args (fst (listen cfg sid skip ts)))"
    if "\<forall>e. snd (listen cfg sid skip ts) \<noteq> Finished (Raised e)"
    by (rule listen_account [OF that])
  show "length (yielded (fst (listen cfg sid skip ts))) \<le> length ts"
    by (rule listen_one_yield)
next
  assume a: "snd (listen cfg sid skip us) = Suspended At_wait st \<and> \<not> isl (outcome t)
      \<and> reals (queue st) @ accepted sid (arrivals t) = x # xs"
  show "fst (listen cfg sid skip (us @ [t]))
        = fst (listen cfg sid skip us) @ calls (arrivals t) @ [Yield Loop x]"
    and "\<exists>st1. snd (listen cfg sid skip (us @ [t])) = Suspended At_loop_yield st1
            \<and> reals (queue st1) = xs"
    using listen_dispatch [of cfg sid skip us st t x xs] a by simp_all
next
  assume a: "snd (listen cfg sid skip us') = Suspended At_loop_yield st' \<and> consumer t' = Next
      \<and> \<not> done_flag (deliver sid (arrivals t') st')"
  show "listen cfg sid skip (us' @ [t'])
        = (fst (listen cfg sid skip us') @ calls (arrivals t')
             @ [Wait (if received_agent_response (deliver sid (arrivals t') st')
                      then response_idle_timeout_s cfg else idle_timeout_s cfg)],
           Suspended At_wait (deliver sid (arrivals t') st'))"
    using listen_goes_on [of cfg sid skip us' st' t'] a by simp
next
  assume a: "snd (listen cfg sid skip ws) = Suspended p st2 \<and> active p \<and> (\<forall>t\<in>set vs. quiet t)
      \<and> 2 * length (reals (queue st2)) + 2 \<le> length vs"
  show "queue_yields (fst (listen cfg sid skip (ws @ vs)))
        = accepted sid (call_args (fst (listen cfg sid skip (ws @ vs))))"
    and "\<forall>e. snd (listen cfg sid skip (ws @ vs)) \<noteq> Finished (Raised e)"
    using listen_drains [of cfg sid skip ws p st2 vs] a by simp_all
qed

theorem yields_follow_arrival_order_witness:
  "snd (listen \<lparr>check_session_state = False, idle_timeout_s = 5, response_idle_timeout_s = 2\<rparr>
         ''s1'' True
         [\<lparr>arrivals =
             [(SESSION_TEXT_PART, [(''payload'', JDict [(''session_id'', JStr ''s1''),
                  (''data'', JDict [(''content'', JStr ''Hello '')])])]),
              (SESSION_TEXT_PART, [(''payload'', JDict [(''session_id'', JStr ''s2''),
                  (''data'', JDict [(''content'', JStr ''other'')])])]),
              (SESSION_TEXT_PART, [(''payload'', JDict [(''session_id'', JStr ''s1''),
                  (''data'', JDict [(''content'', JStr ''world'')])])]),
              (SESSION_STATE, [(''payload'', JDict [(''session_id'', JStr ''s1''),
                  (''data'', JDict [(''content'', JStr ''task_finished'')])])])],
            outcome = Inr JNull, consumer = Next\<rparr>,
          \<lparr>arrivals = [], outcome = Inr JNull, consumer = Next\<rparr>,
          \<lparr>arrivals = [], outcome = Inr JNull, consumer = Next\<rparr>,
          \<lparr>arrivals = [], outcome = Inr JNull, consumer = Next\<rparr>]) = Finished Returned \<and>
   queue_yields
     (fst (listen \<lparr>check_session_state = False, idle_timeout_s = 5, response_idle_timeout_s = 2\<rparr>
         ''s1'' True
         [\<lparr>arrivals =
             [(SESSION_TEXT_PART, [(''payload'', JDict [(''session_id'', JStr ''s1''),
                  (''data'', JDict [(''content'', JStr ''Hello '')])])]),
              (SESSION_TEXT_PART, [(''payload'', JDict [(''session_id'', JStr ''s2''),
                  (''data'', JDict [(''content'', JStr ''other'')])])]),
              (SESSION_TEXT_PART, [(''payload'', JDict [(''session_id'', JStr ''s1''),
                  (''data'', JDict [(''content'', JStr ''world'')])])]),
              (SESSION_STATE, [(''payload'', JDict [(''session_id'', JStr ''s1''),
                  (''data'', JDict [(''content'', JStr ''task_finished'')])])])],
            outcome = Inr JNull, consumer = Next\<rparr>,
          \<lparr>arrivals = [], outcome = Inr JNull, consumer = Next\<rparr>,
          \<lparr>arrivals = [], outcome = Inr JNull, consumer = Next\<rparr>,
          \<lparr>arrivals = [], outcome = Inr JNull, consumer = Next\<rparr>])) =
     [Some \<lparr>type = SESSION_TEXT_PART, session_id = ''s1'', message_id = JNull,
            data = JDict [(''content'', JStr ''Hello '')], metadata = JNull\<rparr>,
      Some \<lparr>type = SESSION_TEXT_PART, session_id = ''s1'', message_id = JNull,
            data = JDict [(''content'', JStr ''world'')], metadata = JNull\<rparr>,
      Some \<lparr>type = SESSION_STATE, session_id = ''s1'', message_id = JNull,
            data = JDict [(''content'', JStr ''task_finished'')], metadata = JNull\<rparr>] \<and>
   fst (listen \<lparr>check_session_state = False, idle_timeout_s = 5, response_idle_timeout_s = 2\<rparr>
         ''s1'' True
         [\<lparr>arrivals =
             [(SESSION_WORK_LOG_PART, [(''payload'', JDict [(''session_id'', JStr ''s1''),
                  (''data'', JDict [(''content'', JStr ''step 1'')])])]),
              (SESSION_WORK_LOG_PART, [(''payload'', JDict [(''session_id'', JStr ''s2''),
                  (''data'', JDict [(''content'', JStr ''other'')])])]),
              (SESSION_WORK_LOG_PART, [(''payload'', JDict [(''session_id'', JStr ''s1''),
                  (''data'', JDict [(''content'', JStr ''step 2'')])])])],
            outcome = Inr JNull, consumer = Next\<rparr>]) =
     [Register, Wait 5,
      Call SESSION_WORK_LOG_PART [(''payload'', JDict [(''session_id'', JStr ''s1''),
                  (''data'', JDict [(''content'', JStr ''step 1'')])])],
      Call SESSION_WORK_LOG_PART [(''payload'', JDict [(''session_id'', JStr ''s2''),
                  (''data'', JDict [(''content'', JStr ''other'')])])],
      Call SESSION_WORK_LOG_PART [(''payload'', JDict [(''session_id'', JStr ''s1''),
                  (''data'', JDict [(''content'', JStr ''step 2'')])])],
      Yield Loop (Some \<lparr>type = SESSION_WORK_LOG_PART, session_id = ''s1'', message_id = JNull,
            data = JDict [(''content'', JStr ''step 1'')], metadata = JNull\<rparr>)] \<and>
   listen \<lparr>check_session_state = False, idle_timeout_s = 5, response_idle_timeout_s = 2\<rparr>
         ''s1'' True
         [\<lparr>arrivals =
             [(SESSION_WORK_LOG_PART, [(''payload'', JDict [(''session_id'', JStr ''s1''),
                  (''data'', JDict [(''content'', JStr ''step 1'')])])]),
              (SESSION_WORK_LOG_PART, [(''payload'', JDict [(''session_id'', JStr ''s2''),
                  (''data'', JDict [(''content'', JStr ''other'')])])]),
              (SESSION_WORK_LOG_PART, [(''payload'', JDict [(''session_id'', JStr ''s1''),
                  (''data'', JDict [(''content'', JStr ''step 2'')])])])],
            outcome = Inr JNull, consumer = Next\<rparr>,
          \<lparr>arrivals = [], outcome = Inr JNull, consumer = Next\<rparr>] =
     ([Register, Wait 5,
       Call SESSION_WORK_LOG_PART [(''payload'', JDict [(''session_id'', JStr ''s1''),
                  (''data'', JDict [(''content'', JStr ''step 1'')])])],
       Call SESSION_WORK_LOG_PART [(''payload'', JDict [(''session_id'', JStr ''s2''),
                  (''data'', JDict [(''content'', JStr ''other'')])])],
       Call SESSION_WORK_LOG_PART [(''payload'', JDict [(''session_id'', JStr ''s1''),
                  (''data'', JDict [(''content'', JStr ''step 2'')])])],
       Yield Loop (Some \<lparr>type = SESSION_WORK_LOG_PART, session_id = ''s1'', message_id = JNull,
            data = JDict [(''content'', JStr ''step 1'')], metadata = JNull\<rparr>),
       Wait 5],
      Suspended At_wait
        \<lparr>queue = [Some \<lparr>type = SESSION_WORK_LOG_PART, session_id = ''s1'', message_id = JNull,
            data = JDict [(''content'', JStr ''step 2'')], metadata = JNull\<rparr>],
         done_flag = False, received_agent_response = False\<rparr>) \<and>
   queue_yields
     (fst (listen \<lparr>check_session_state = False, idle_timeout_s = 5, response_idle_timeout_s = 2\<rparr>
         ''s1'' True
         [\<lparr>arrivals =
             [(SESSION_WORK_LOG_PART, [(''payload'', JDict [(''session_id'', JStr ''s1''),
                  (''data'', JDict [(''content'', JStr ''step 1'')])])]),
              (SESSION_WORK_LOG_PART, [(''payload'', JDict [(''session_id'', JStr ''s2''),
                  (''data'', JDict [(''content'', JStr ''other'')])])]),
              (SESSION_WORK_LOG_PART, [(''payload'', JDict [(''session_id'', JStr ''s1''),
                  (''data'', JDict [(''content'', JStr ''step 2'')])])])],
            outcome = Inr JNull, consumer = Next\<rparr>,
          \<lparr>arrivals = [], outcome = Inr JNull, consumer = Next\<rparr>,
          \<lparr>arrivals = [], outcome = Inr JNull, consumer = Next\<rparr>,
          \<lparr>arrivals = [], outcome = Inr JNull, consumer = Next\<rparr>,
          \<lparr>arrivals = [], outcome = Inr JNull, consumer = Next\<rparr>])) =
     [Some \<lparr>type = SESSION_WORK_LOG_PART, session_id = ''s1'', message_id = JNull,
            data = JDict [(''content'', JStr ''step 1'')], metadata = JNull\<rparr>,
      Some \<lparr>type = SESSION_WORK_LOG_PART, session_id = ''s1'', message_id = JNull,
            data = JDict [(''content'', JStr ''step 2'')], metadata = JNull\<rparr>] \<and>
   snd (listen \<lparr>check_session_state = False, idle_timeout_s = 5, response_idle_timeout_s = 2\<rparr>
         ''s1'' True
         [\<lparr>arrivals =
             [(SESSION_WORK_LOG_PART, [(''payload'', JDict [(''session_id'', JStr ''s1''),
                  (''data'', JDict [(''content'', JStr ''step 1'')])])]),
              (SESSION_WORK_LOG_PART, [(''payload'', JDict [(''session_id'', JStr ''s2''),
                  (''data'', JDict [(''content'', JStr ''other'')])])]),
              (SESSION_WORK_LOG_PART, [(''payload'', JDict [(''session_id'', JStr ''s1''),
                  (''data'', JDict [(''content'', JStr ''step 2'')])])])],
            outcome = Inr JNull, consumer = Next\<rparr>,
          \<lparr>arrivals = [], outcome = Inr JNull, consumer = Next\<rparr>,
          \<lparr>arrivals = [], outcome = Inr JNull, consumer = Next\<rparr>,
          \<lparr>arrivals = [], outcome = Inr JNull, consumer = Next\<rparr>,
          \<lparr>arrivals = [], outcome = Inr JNull, consumer = Next\<rparr>]) =
     Suspended At_wait \<lparr>queue = [], done_flag = False, received_agent_response = False\<rparr>"
proof -
  let ?cfg = "\<lparr>check_session_state = False, idle_timeout_s = 5, response_idle_timeout_s = 2\<rparr>"
  let ?ds = "[(SESSION_TEXT_PART, [(''payload'', JDict [(''session_id'', JStr ''s1''),
                  (''data'', JDict [(''content'', JStr ''Hello '')])])]),
              (SESSION_TEXT_PART, [(''payload'', JDict [(''session_id'', JStr ''s2''),
                  (''data'', JDict [(''content'', JStr ''other'')])])]),
              (SESSION_TEXT_PART, [(''payload'', JDict [(''session_id'', JStr ''s1''),
                  (''data'', JDict [(''content'', JStr ''world'')])])]),
              (SESSION_STATE, [(''payload'', JDict [(''session_id'', JStr ''s1''),
                  (''data'', JDict [(''content'', JStr ''task_finished'')])])])]"
  let ?r1 = "[(''payload'', JDict [(''session_id'', JStr ''s1''),
                  (''data'', JDict [(''content'', JStr ''step 1'')])])]"
  let ?r0 = "[(''payload'', JDict [(''session_id'', JStr ''s2''),
                  (''data'', JDict [(''content'', JStr ''other'')])])]"
  let ?r2 = "[(''payload'', JDict [(''session_id'', JStr ''s1''),
                  (''data'', JDict [(''content'', JStr ''step 2'')])])]"
  let ?e1 = "\<lparr>type = SESSION_WORK_LOG_PART, session_id = ''s1'', message_id = JNull,
            data = JDict [(''content'', JStr ''step 1'')], metadata = JNull\<rparr>"
  let ?e2 = "\<lparr>type = SESSION_WORK_LOG_PART, session_id = ''s1'', message_id = JNull,
            data = JDict [(''content'', JStr ''step 2'')], metadata = JNull\<rparr>"
  let ?ws = "[(SESSION_WORK_LOG_PART, ?r1), (SESSION_WORK_LOG_PART, ?r0),
              (SESSION_WORK_LOG_PART, ?r2)]"
  let ?q = "\<lparr>arrivals = [], outcome = Inr JNull, consumer = Next\<rparr>"
  let ?ts = "[\<lparr>arrivals = ?ds, outcome = Inr JNull, consumer = Next\<rparr>, ?q, ?q, ?q]"
  let ?w = "\<lparr>arrivals = ?ws, outcome = Inr JNull, consumer = Next\<rparr>"
  let ?st1 = "\<lparr>queue = [Some ?e2], done_flag = False, received_agent_response = False\<rparr>"
  note evaluate = listen_def activate_eq after_def calls_def loop_top_def drain.simps
    handler_def dict_get_def put_nowait_def on_substantive_def on_input_state_def
    on_session_state_def SUBSTANTIVE_EVENTS_def TERMINAL_STATES_def init_lstate_def
  note T = yields_follow_arrival_order [where cfg = ?cfg and sid = "''s1''" and skip = True]
  have fin: "snd (listen ?cfg ''s1'' True ?ts) = Finished Returned"
    and cs: "call_args (fst (listen ?cfg ''s1'' True ?ts)) = ?ds"
    by (simp_all add: evaluate)
  have returned: "queue_yields (fst (listen ?cfg ''s1'' True ?ts))
      = accepted ''s1'' (call_args (fst (listen ?cfg ''s1'' True ?ts)))"
    using T [where ts = ?ts and us = "[]" and st = init_lstate and t = ?w
        and x = "Some ?e1" and xs = "[Some ?e2]" and us' = "[?w]" and st' = ?st1 and t' = ?q
        and ws = "[?w]" and p = At_loop_yield and ?st2.0 = ?st1 and vs = "[?q, ?q, ?q, ?q]",
        THEN conjunct2, THEN conjunct1]
      fin by simp
  have l0: "snd (listen ?cfg ''s1'' True []) = Suspended At_wait init_lstate"
    by (simp add: listen_def activate_eq after_def)
  have acc: "reals (queue init_lstate) @ accepted ''s1'' (arrivals ?w) = Some ?e1 # [Some ?e2]"
    by (simp add: accepted_def notions dict_get_def reals_def)
  have dispatch: "fst (listen ?cfg ''s1'' True ([] @ [?w]))
      = fst (listen ?cfg ''s1'' True []) @ calls (arrivals ?w) @ [Yield Loop (Some ?e1)]"
    using T [where ts = ?ts and us = "[]" and st = init_lstate and t = ?w
        and x = "Some ?e1" and xs = "[Some ?e2]" and us' = "[?w]" and st' = ?st1 and t' = ?q
        and ws = "[?w]" and p = At_loop_yield and ?st2.0 = ?st1 and vs = "[?q, ?q, ?q, ?q]",
        THEN conjunct2, THEN conjunct2, THEN conjunct2, THEN conjunct2, THEN conjunct2,
        THEN conjunct1]
      l0 acc by simp
  have l1: "snd (listen ?cfg ''s1'' True [?w]) = Suspended At_loop_yield ?st1"
    by (simp add: evaluate)
  have goes_on: "listen ?cfg ''s1'' True ([?w] @ [?q])
      = (fst (listen ?cfg ''s1'' True [?w]) @ calls (arrivals ?q)
           @ [Wait (if received_agent_response (deliver ''s1'' (arrivals ?q) ?st1)
                    then response_idle_timeout_s ?cfg else idle_timeout_s ?cfg)],
         Suspended At_wait (deliver ''s1'' (arrivals ?q) ?st1))"
    using T [where ts = ?ts and us = "[]" and st = init_lstate and t = ?w
        and x = "Some ?e1" and xs = "[Some ?e2]" and us' = "[?w]" and st' = ?st1 and t' = ?q
        and ws = "[?w]" and p = At_loop_yield and ?st2.0 = ?st1 and vs = "[?q, ?q, ?q, ?q]",
        THEN conjunct2, THEN conjunct2, THEN conjunct2, THEN conjunct2, THEN conjunct2,
        THEN conjunct2, THEN conjunct1]
      l1 by simp
  have drained: "queue_yields (fst (listen ?cfg ''s1'' True ([?w] @ [?q, ?q, ?q, ?q])))
      = accepted ''s1'' (call_args (fst (listen ?cfg ''s1'' True ([?w] @ [?q, ?q, ?q, ?q]))))"
    using T [where ts = ?ts and us = "[]" and st = init_lstate and t = ?w
        and x = "Some ?e1" and xs = "[Some ?e2]" and us' = "[?w]" and st' = ?st1 and t' = ?q
        and ws = "[?w]" and p = At_loop_yield and ?st2.0 = ?st1 and vs = "[?q, ?q, ?q, ?q]",
        THEN conjunct2, THEN conjunct2, THEN conjunct2, THEN conjunct2, THEN conjunct2,
        THEN conjunct2, THEN conjunct2]
      l1 by (simp add: quiet_def reals_def)
  have cw: "call_args (fst (listen ?cfg ''s1'' True [?w, ?q, ?q, ?q, ?q])) = ?ws"
    and listening: "snd (listen ?cfg ''s1'' True [?w, ?q, ?q, ?q, ?q])
      = Suspended At_wait \<lparr>queue = [], done_flag = False, received_agent_response = False\<rparr>"
    by (simp_all add: evaluate)
  have c1: "queue_yields (fst (listen ?cfg ''s1'' True ?ts))
      = [Some \<lparr>type = SESSION_TEXT_PART, session_id = ''s1'', message_id = JNull,
            data = JDict [(''content'', JStr ''Hello '')], metadata = JNull\<rparr>,
      Some \<lparr>type = SESSION_TEXT_PART, session_id = ''s1'', message_id = JNull,
            data = JDict [(''content'', JStr ''world'')], metadata = JNull\<rparr>,
      Some \<lparr>type = SESSION_STATE, session_id = ''s1'', message_id = JNull,
            data = JDict [(''content'', JStr ''task_finished'')], metadata = JNull\<rparr>]"
    using returned unfolding cs by (simp add: accepted_def notions dict_get_def)
  have c2: "fst (listen ?cfg ''s1'' True [?w])
      = [Register, Wait 5, Call SESSION_WORK_LOG_PART ?r1, Call SESSION_WORK_LOG_PART ?r0,
         Call SESSION_WORK_LOG_PART ?r2, Yield Loop (Some ?e1)]"
    using dispatch by (simp add: listen_def activate_eq after_def calls_def)
  have c3: "listen ?cfg ''s1'' True [?w, ?q]
      = ([Register, Wait 5, Call SESSION_WORK_LOG_PART ?r1, Call SESSION_WORK_LOG_PART ?r0,
          Call SESSION_WORK_LOG_PART ?r2, Yield Loop (Some ?e1), Wait 5],
         Suspended At_wait ?st1)"
    using goes_on unfolding c2 by (simp add: calls_def)
  have c4: "queue_yields (fst (listen ?cfg ''s1'' True [?w, ?q, ?q, ?q, ?q]))
      = [Some ?e1, Some ?e2]"
    using drained unfolding append_Cons append_Nil cw
    by (simp add: accepted_def notions dict_get_def)
  show ?thesis
    using fin c1 c2 c3 c4 listening by (intro conjI)
qed

section \<open>The state query\<close>

lemma drain_not_raised: "snd (drain st) \<noteq> Finished (Raised x)"
  using drain_cases [of st] by auto

lemma loop_top_not_raised: "snd (loop_top cfg st) \<noteq> Finished (Raised x)"
  by (simp add: loop_top_def Let_def drain_not_raised)

text \<open>
  C7. With the precheck not skipped and a collaborator configured, an answer whose
  state is terminal makes the listener yield one event, synthesized from the requested
  session id and that state, and end when the consumer comes back (by a return, or by
  \<^verbatim>\<open>GeneratorExit\<close> if the consumer closes it there): the observer is never
  registered, and nothing that arrives meanwhile is seen.
\<close>

theorem precheck_terminal_yields_one_event:
  assumes "check_session_state cfg"
    and "outcome t = Inr (JDict kv)"
    and "dict_get kv ''state'' JNull = JStr s"
    and "s \<in> TERMINAL_STATES"
  shows "listen cfg sid False (t # t' # ts) =
      ([Query, Yield Precheck (Some \<lparr>type = SESSION_STATE, session_id = sid, message_id = JNull,
                                     data = JDict [(''content'', JStr s)], metadata = JNull\<rparr>)],
       Finished (case consumer t' of Next \<Rightarrow> Returned | Close \<Rightarrow> Raised GeneratorExit))
     \<and> yielded (fst (listen cfg sid False (t # t' # ts))) =
          [Some \<lparr>type = SESSION_STATE, session_id = sid, message_id = JNull,
                 data = JDict [(''content'', JStr s)], metadata = JNull\<rparr>]
     \<and> Register \<notin> set (fst (listen cfg sid False (t # t' # ts)))
     \<and> listen cfg sid False [t] =
      ([Query, Yield Precheck (Some \<lparr>type = SESSION_STATE, session_id = sid, message_id = JNull,
                                     data = JDict [(''content'', JStr s)], metadata = JNull\<rparr>)],
       Suspended At_precheck_yield init_lstate)"
proof -
  have "map_of kv ''state'' = Some (JStr s)"
    using assms(3) by (auto simp: dict_get_def split: option.splits)
  then have ev: "terminal_event sid (JDict kv) =
      Inr (Some \<lparr>type = SESSION_STATE, session_id = sid, message_id = JNull,
                 data = JDict [(''content'', JStr s)], metadata = JNull\<rparr>)"
    using assms(4) by (simp add: terminal_event_def dict_get_def dict_item_def)
  show ?thesis
    using assms(1,2) ev
    by (cases "consumer t'") (simp_all add: listen_def after_def Let_def)
qed

theorem precheck_terminal_yields_one_event_witness:
  "listen \<lparr>check_session_state = True, idle_timeout_s = 120, response_idle_timeout_s = 2\<rparr>
     ''s1'' False
     [\<lparr>arrivals = [], outcome = Inr (JDict [(''state'', JStr ''task_finished'')]), consumer = Next\<rparr>,
      \<lparr>arrivals = [(SESSION_TEXT, [(''payload'', JDict [(''data'', JStr ''late'')])])],
        outcome = Inr JNull, consumer = Next\<rparr>] =
   ([Query, Yield Precheck (Some \<lparr>type = SESSION_STATE, session_id = ''s1'', message_id = JNull,
        data = JDict [(''content'', JStr ''task_finished'')], metadata = JNull\<rparr>)],
    Finished Returned)"
  using precheck_terminal_yields_one_event
    [of "\<lparr>check_session_state = True, idle_timeout_s = 120, response_idle_timeout_s = 2\<rparr>"
      "\<lparr>arrivals = [], outcome = Inr (JDict [(''state'', JStr ''task_finished'')]), consumer = Next\<rparr>"
      "[(''state'', JStr ''task_finished'')]" "''task_finished''" "''s1''"
      "\<lparr>arrivals = [(SESSION_TEXT, [(''payload'', JDict [(''data'', JStr ''late'')])])],
        outcome = Inr JNull, consumer = Next\<rparr>" "[]"]
  by (simp add: dict_get_def TERMINAL_STATES_def)

text \<open>
  C8 (as amended). A failure of the state query that is an instance of
  \<^verbatim>\<open>Exception\<close>, and equally an answer that cannot be read (not a dict, or a state
  that cannot be hashed), is swallowed at both places. After the precheck the call goes
  on exactly as a call that skips the precheck; after the re-poll the loop goes back to
  its test and waits again. Neither resumption ends the generator with an exception.
  An exception outside \<^verbatim>\<open>Exception\<close> is not caught by \<^verbatim>\<open>except Exception\<close>: it
  leaves the generator, from the precheck at once, from the re-poll after the observer
  has been deregistered. Of the exceptions that occur these are \<^verbatim>\<open>GeneratorExit\<close>,
  \<^verbatim>\<open>asyncio.CancelledError\<close>, \<^verbatim>\<open>KeyboardInterrupt\<close> and \<^verbatim>\<open>SystemExit\<close>, and
  no other.
\<close>

theorem query_failures_are_swallowed:
  assumes "check_session_state cfg"
    and "(\<exists>e. outcome t = Inl e \<and> is_Exception e)
       \<or> (\<exists>session e. outcome t = Inr session \<and> terminal_event sid session = Inl e)"
  shows "listen cfg sid False (t # ts) = after [Query] (listen cfg sid True ts)
     \<and> resume cfg sid At_repoll_query st t
         = after (calls (arrivals t)) (loop_top cfg (deliver sid (arrivals t) st))
     \<and> (\<forall>x. snd (resume cfg sid At_precheck_query st t) \<noteq> Finished (Raised x))
     \<and> (\<forall>x. snd (resume cfg sid At_repoll_query st t) \<noteq> Finished (Raised x))
     \<and> (outcome t' = Inl e' \<and> \<not> is_Exception e' \<longrightarrow>
          listen cfg sid False (t' # ts') = ([Query], Finished (Raised e'))
          \<and> resume cfg sid At_repoll_query st' t'
              = (calls (arrivals t') @ [Deregister], Finished (Raised e'))
          \<and> (snd (listen cfg sid skip us) = Suspended At_repoll_query st' \<longrightarrow>
               listen cfg sid skip (us @ t' # ts')
               = (fst (listen cfg sid skip us) @ calls (arrivals t') @ [Deregister],
                  Finished (Raised e'))))
     \<and> (\<not> is_Exception e0)
         = (e0 \<in> {GeneratorExit, CancelledError, KeyboardInterrupt, SystemExit})"
proof -
  obtain e where e: "(case outcome t of Inl e \<Rightarrow> Inl e | Inr session \<Rightarrow> terminal_event sid session)
      = Inl e" "is_Exception e"
    using assms(2) terminal_event_Exception by (auto split: sum.splits)
  have pre: "resume cfg sid At_precheck_query st t = activate cfg" for st
    using e by simp
  have re: "resume cfg sid At_repoll_query st t
      = after (calls (arrivals t)) (loop_top cfg (deliver sid (arrivals t) st))"
    using e by (simp add: Let_def)
  have "listen cfg sid False (t # ts) = after [Query] (listen cfg sid True ts)"
    using assms(1) by (simp add: listen_def pre Let_def after_def del: resume.simps)
  then have swallowed: "listen cfg sid False (t # ts) = after [Query] (listen cfg sid True ts)
     \<and> resume cfg sid At_repoll_query st t
         = after (calls (arrivals t)) (loop_top cfg (deliver sid (arrivals t) st))
     \<and> (\<forall>x. snd (resume cfg sid At_precheck_query st t) \<noteq> Finished (Raised x))
     \<and> (\<forall>x. snd (resume cfg sid At_repoll_query st t) \<noteq> Finished (Raised x))"
    using re by (simp add: pre activate_eq loop_top_not_raised del: resume.simps)
  have propagated: "listen cfg sid False (t' # ts') = ([Query], Finished (Raised e'))
      \<and> resume cfg sid At_repoll_query st' t'
          = (calls (arrivals t') @ [Deregister], Finished (Raised e'))
      \<and> (snd (listen cfg sid skip us) = Suspended At_repoll_query st' \<longrightarrow>
           listen cfg sid skip (us @ t' # ts')
           = (fst (listen cfg sid skip us) @ calls (arrivals t') @ [Deregister],
              Finished (Raised e')))"
    if o: "outcome t' = Inl e'" and n: "\<not> is_Exception e'"
  proof -
    have p: "resume cfg sid At_precheck_query init_lstate t' = ([], Finished (Raised e'))"
      using o n by simp
    have r: "resume cfg sid At_repoll_query st' t'
        = (calls (arrivals t') @ [Deregister], Finished (Raised e'))"
      using o n by (simp add: Let_def after_def leave_def)
    have "listen cfg sid False (t' # ts') = ([Query], Finished (Raised e'))"
      using assms(1) by (simp add: listen_def p Let_def after_def del: resume.simps)
    moreover have "listen cfg sid skip (us @ t' # ts')
           = (fst (listen cfg sid skip us) @ calls (arrivals t') @ [Deregister],
              Finished (Raised e'))"
      if "snd (listen cfg sid skip us) = Suspended At_repoll_query st'"
      using that by (simp add: listen_append r Let_def after_def del: resume.simps)
    ultimately show ?thesis using r by simp
  qed
  have classes: "(\<not> is_Exception e0)
      = (e0 \<in> {GeneratorExit, CancelledError, KeyboardInterrupt, SystemExit})"
    by (cases e0) simp_all
  show ?thesis
    using swallowed propagated classes by blast
qed

theorem query_failures_are_swallowed_witness:
  "listen \<lparr>check_session_state = True, idle_timeout_s = 120, response_idle_timeout_s = 2\<rparr>
     ''s1'' False
     [\<lparr>arrivals = [], outcome = Inl (OtherException ''ConnectionError''), consumer = Next\<rparr>] =
   ([Query, Register, Wait 120], Suspended At_wait init_lstate) \<and>
   resume \<lparr>check_session_state = True, idle_timeout_s = 120, response_idle_timeout_s = 2\<rparr>
     ''s1'' At_repoll_query init_lstate
     \<lparr>arrivals = [], outcome = Inl (OtherException ''ConnectionError''), consumer = Next\<rparr> =
   ([Wait 120], Suspended At_wait init_lstate) \<and>
   listen \<lparr>check_session_state = True, idle_timeout_s = 120, response_idle_timeout_s = 2\<rparr>
     ''s1'' False
     [\<lparr>arrivals = [], outcome = Inl KeyboardInterrupt, consumer = Next\<rparr>] =
   ([Query], Finished (Raised KeyboardInterrupt)) \<and>
   listen \<lparr>check_session_state = True, idle_timeout_s = 120, response_idle_timeout_s = 2\<rparr>
     ''s1'' True
     [\<lparr>arrivals = [], outcome = Inr JNull, consumer = Next\<rparr>,
      \<lparr>arrivals = [], outcome = Inl KeyboardInterrupt, consumer = Next\<rparr>] =
   ([Register, Wait 120, Query, Deregister], Finished (Raised KeyboardInterrupt))"
proof -
  let ?cfg = "\<lparr>check_session_state = True, idle_timeout_s = 120, response_idle_timeout_s = 2\<rparr>"
  let ?t = "\<lparr>arrivals = [], outcome = Inl (OtherException ''ConnectionError''), consumer = Next\<rparr>"
  let ?k = "\<lparr>arrivals = [], outcome = Inl KeyboardInterrupt, consumer = Next\<rparr>"
  let ?q = "\<lparr>arrivals = [], outcome = Inr JNull, consumer = Next\<rparr>"
  have c: "check_session_state ?cfg"
    and f: "(\<exists>e. outcome ?t = Inl e \<and> is_Exception e)
       \<or> (\<exists>session e. outcome ?t = Inr session \<and> terminal_event ''s1'' session = Inl e)"
    by simp_all
  note T = query_failures_are_swallowed [OF c f, where ts = "[]" and st = init_lstate
      and t' = ?k and e' = KeyboardInterrupt and ts' = "[]" and st' = init_lstate
      and skip = True and us = "[?q]" and ?e0.0 = KeyboardInterrupt]
  have l: "snd (listen ?cfg ''s1'' True [?q]) = Suspended At_repoll_query init_lstate"
    and a: "fst (listen ?cfg ''s1'' True [?q]) = [Register, Wait 120, Query]"
    by (simp_all add: listen_def activate_eq after_def calls_def)
  have s1: "listen ?cfg ''s1'' False [?t] = after [Query] (listen ?cfg ''s1'' True [])"
    using T [THEN conjunct1] .
  have s2: "resume ?cfg ''s1'' At_repoll_query init_lstate ?t
      = after (calls (arrivals ?t)) (loop_top ?cfg (deliver ''s1'' (arrivals ?t) init_lstate))"
    using T [THEN conjunct2, THEN conjunct1] .
  have p: "listen ?cfg ''s1'' False (?k # [])
          = ([Query], Finished (Raised KeyboardInterrupt))
      \<and> resume ?cfg ''s1'' At_repoll_query init_lstate ?k
          = (calls (arrivals ?k) @ [Deregister], Finished (Raised KeyboardInterrupt))
      \<and> (snd (listen ?cfg ''s1'' True [?q]) = Suspended At_repoll_query init_lstate \<longrightarrow>
           listen ?cfg ''s1'' True ([?q] @ ?k # [])
           = (fst (listen ?cfg ''s1'' True [?q]) @ calls (arrivals ?k) @ [Deregister],
              Finished (Raised KeyboardInterrupt)))"
    using T [THEN conjunct2, THEN conjunct2, THEN conjunct2, THEN conjunct2, THEN conjunct1]
    by simp
  have c1: "listen ?cfg ''s1'' False [?t] = ([Query, Register, Wait 120], Suspended At_wait init_lstate)"
    unfolding s1 by (simp add: listen_def activate_eq after_def)
  have c2: "resume ?cfg ''s1'' At_repoll_query init_lstate ?t
      = ([Wait 120], Suspended At_wait init_lstate)"
    unfolding s2 by (simp add: after_def calls_def loop_top_def)
  have c3: "listen ?cfg ''s1'' False [?k] = ([Query], Finished (Raised KeyboardInterrupt))"
    using p by blast
  have "listen ?cfg ''s1'' True ([?q] @ ?k # [])
           = (fst (listen ?cfg ''s1'' True [?q]) @ calls (arrivals ?k) @ [Deregister],
              Finished (Raised KeyboardInterrupt))"
    using p l by blast
  then have c4: "listen ?cfg ''s1'' True [?q, ?k]
      = ([Register, Wait 120, Query, Deregister], Finished (Raised KeyboardInterrupt))"
    unfolding a by (simp add: calls_def)
  show ?thesis
    using c1 c2 c3 c4 by (intro conjI)
qed

text \<open>
  C8 as stated fails: a query that raises \<^verbatim>\<open>asyncio.CancelledError\<close>, which is not
  an \<^verbatim>\<open>Exception\<close>, is not caught; the exception leaves the generator, from the
  precheck and from the re-poll after an idle timeout.
\<close>

theorem query_cancelled_counterexample:
  "listen \<lparr>check_session_state = True, idle_timeout_s = 120, response_idle_timeout_s = 2\<rparr>
     ''s1'' False
     [\<lparr>arrivals = [], outcome = Inl CancelledError, consumer = Next\<rparr>] =
   ([Query], Finished (Raised CancelledError)) \<and>
   listen \<lparr>check_session_state = True, idle_timeout_s = 120, response_idle_timeout_s = 2\<rparr>
     ''s1'' True
     [\<lparr>arrivals = [], outcome = Inr JNull, consumer = Next\<rparr>,
      \<lparr>arrivals = [], outcome = Inl CancelledError, consumer = Next\<rparr>] =
   ([Register, Wait 120, Query, Deregister], Finished (Raised CancelledError))"
  by (simp add: listen_def activate_eq after_def calls_def loop_top_def leave_def)

section \<open>The two stop signals\<close>

lemma deliver_terminal_stops:
  assumes "accepts sid raw" and "is_terminal_state raw"
  shows "done_flag (deliver sid (pre @ (SESSION_STATE, raw) # post) st)"
  using assms by (simp add: deliver_append deliver_done_mono handler_done)

lemma deliver_substantive_received:
  assumes "d \<in> set ds" and "fst d \<in> SUBSTANTIVE_EVENTS" and "accepts sid (snd d)"
  shows "received_agent_response (deliver sid ds st)"
proof -
  obtain xs ys where ds: "ds = xs @ d # ys"
    using assms(1) by (auto dest: split_list)
  obtain event raw where d: "d = (event, raw)"
    by (cases d)
  have "received_agent_response (fst (handler sid event raw (deliver sid xs st)))"
    using assms(2,3) by (simp add: d handler_received)
  then show ?thesis
    by (simp add: ds d deliver_append deliver_received_mono)
qed

lemma deliver_waiting_input_stops:
  assumes "accepts sid raw" and "is_waiting_input raw"
    and "received_agent_response st
       \<or> (\<exists>d\<in>set pre. fst d \<in> SUBSTANTIVE_EVENTS \<and> accepts sid (snd d))"
  shows "done_flag (deliver sid (pre @ (SESSION_INPUT_STATE, raw) # post) st)"
proof -
  have "received_agent_response (deliver sid pre st)"
    using assms(3) deliver_received_mono deliver_substantive_received by blast
  then have "done_flag (fst (handler sid SESSION_INPUT_STATE raw (deliver sid pre st)))"
    using assms(1,2) by (simp add: handler_done)
  then show ?thesis
    by (simp add: deliver_append deliver_done_mono)
qed

text \<open>
  Once \<^verbatim>\<open>done\<close> is set, a resumption in which nothing is raised and the consumer
  goes on either ends the generator by a return or leaves it closer to that end.
\<close>

lemma drain_progress:
  assumes "done_flag st"
  shows "snd (drain st) = Finished Returned
     \<or> (\<exists>st'. snd (drain st) = Suspended At_drain_yield st' \<and> done_flag st'
           \<and> Suc (length (reals (queue st'))) = length (reals (queue st)))"
  using drain_cases [of st] assms by auto

lemma resume_progress:
  assumes "active p" and "done_flag (deliver sid (arrivals t) st)"
    and "\<not> isl (outcome t)" and "consumer t = Next"
  shows "snd (resume cfg sid p st t) = Finished Returned
     \<or> (\<exists>p' st'. snd (resume cfg sid p st t) = Suspended p' st' \<and> active p' \<and> done_flag st'
           \<and> rank p' + length (reals (queue st'))
             < rank p + length (reals (queue (deliver sid (arrivals t) st))))"
proof -
  let ?st1 = "deliver sid (arrivals t) st"
  obtain v where v: "outcome t = Inr v"
    using assms(3) by (cases "outcome t") simp_all
  have d: "snd (drain ?st1) = Finished Returned
     \<or> (\<exists>st'. snd (drain ?st1) = Suspended At_drain_yield st' \<and> done_flag st'
           \<and> Suc (length (reals (queue st'))) = length (reals (queue ?st1)))"
    using drain_progress [OF assms(2)] .
  have l: "loop_top cfg ?st1 = drain ?st1"
    using assms(2) by (simp add: loop_top_def)
  show ?thesis
  proof (cases p)
    case At_wait
    show ?thesis
    proof (cases "queue ?st1")
      case Nil
      then have "drain ?st1 = ([Deregister], Finished Returned)"
        by (subst drain.simps) simp
      then show ?thesis
        unfolding At_wait using v Nil l assms(2) by (simp add: Let_def reals_def)
    next
      case (Cons evt q)
      show ?thesis
      proof (cases evt)
        case None
        have "drain (?st1\<lparr>queue := q\<rparr>) = drain ?st1"
          using drain_None [of ?st1 q] Cons None by simp
        then show ?thesis
          unfolding At_wait using v Cons None d by (auto simp: Let_def)
      next
        case (Some e)
        then show ?thesis
          unfolding At_wait using v Cons assms(2) by (simp add: Let_def reals_def)
      qed
    qed
  next
    case At_repoll_query
    show ?thesis
      unfolding At_repoll_query using v l d assms(2)
      by (auto simp: Let_def split: sum.splits option.splits dest: terminal_event_Exception)
  next
    case At_repoll_yield
    show ?thesis
      unfolding At_repoll_yield using assms(4) d by (auto simp: Let_def)
  next
    case At_loop_yield
    show ?thesis
      unfolding At_loop_yield using assms(4) l d by (auto simp: Let_def)
  next
    case At_drain_yield
    show ?thesis
      unfolding At_drain_yield using assms(4) d by (auto simp: Let_def)
  qed (use assms(1) in simp_all)
qed

lemma run_stops:
  assumes "active p" and "done_flag st" and "\<forall>t\<in>set ts. quiet t"
    and "rank p + length (reals (queue st)) \<le> length ts"
  shows "snd (run cfg sid (Suspended p st) ts) = Finished Returned"
  using assms
proof (induction ts arbitrary: p st)
  case Nil
  then show ?case by (cases p) simp_all
next
  case (Cons t ts)
  have t: "arrivals t = []" "\<not> isl (outcome t)" "consumer t = Next"
    using Cons.prems(3) by (simp_all add: quiet_def)
  have eq: "snd (run cfg sid (Suspended p st) (t # ts))
      = snd (run cfg sid (snd (resume cfg sid p st t)) ts)"
    by (simp add: Let_def del: resume.simps)
  consider "snd (resume cfg sid p st t) = Finished Returned"
    | p' st' where "snd (resume cfg sid p st t) = Suspended p' st'" "active p'" "done_flag st'"
        "rank p' + length (reals (queue st')) < rank p + length (reals (queue st))"
    using resume_progress [OF Cons.prems(1), of sid t st cfg] Cons.prems(2) t by auto
  then show ?case
  proof cases
    case 1
    then show ?thesis unfolding eq by simp
  next
    case 2
    have "snd (run cfg sid (Suspended p' st') ts) = Finished Returned"
      by (rule Cons.IH) (use 2 Cons.prems in simp_all)
    then show ?thesis unfolding eq using 2 by simp
  qed
qed

lemma run_stops_after_signal:
  assumes "active p" and "done_flag (deliver sid (arrivals t) st)"
    and "\<not> isl (outcome t)" and "consumer t = Next"
    and "\<forall>t'\<in>set ts. quiet t'"
    and "length (reals (queue (deliver sid (arrivals t) st))) + 2 \<le> length ts"
  shows "snd (run cfg sid (Suspended p st) (t # ts)) = Finished Returned"
proof -
  have eq: "snd (run cfg sid (Suspended p st) (t # ts))
      = snd (run cfg sid (snd (resume cfg sid p st t)) ts)"
    by (simp add: Let_def del: resume.simps)
  have "rank p \<le> 3"
    by (cases p) simp_all
  then consider "snd (resume cfg sid p st t) = Finished Returned"
    | p' st' where "snd (resume cfg sid p st t) = Suspended p' st'" "active p'" "done_flag st'"
        "rank p' + length (reals (queue st')) \<le> length ts"
    using resume_progress [OF assms(1-4), of cfg] assms(6) by fastforce
  then show ?thesis
  proof cases
    case 1
    then show ?thesis unfolding eq by simp
  next
    case 2
    have "snd (run cfg sid (Suspended p' st') ts) = Finished Returned"
      by (rule run_stops) (use 2 assms(5) in simp_all)
    then show ?thesis unfolding eq using 2 by simp
  qed
qed

text \<open>
  C5. While a listen call is registered and suspended, let a stop signal arrive: an
  accepted session-state event with a terminal state, or an accepted
  \<^verbatim>\<open>waiting_input\<close> event when a substantive event has been received before or
  earlier among the same arrivals. If from then on nothing is raised into the generator,
  the consumer takes what is offered and nothing more arrives, the generator returns
  normally, having yielded from its queue exactly the accepted events of the whole
  call. The stop sentinel is not among what is yielded, there or in any run.
\<close>

theorem stop_signals_end_without_sentinel:
  assumes listening: "snd (listen cfg sid skip us) = Suspended p st" "active p"
    and signal:
      "(\<exists>pre raw post. arrivals t = pre @ (SESSION_STATE, raw) # post
          \<and> accepts sid raw \<and> is_terminal_state raw)
       \<or> (\<exists>pre raw post. arrivals t = pre @ (SESSION_INPUT_STATE, raw) # post
          \<and> accepts sid raw \<and> is_waiting_input raw
          \<and> (received_agent_response st
             \<or> (\<exists>d\<in>set pre. fst d \<in> SUBSTANTIVE_EVENTS \<and> accepts sid (snd d))))"
    and calm: "\<not> isl (outcome t)" "consumer t = Next"
    and quiet: "\<forall>t'\<in>set ts. quiet t'"
    and enough: "length (reals (queue st)) + length (accepted sid (arrivals t)) + 2 \<le> length ts"
  shows "snd (listen cfg sid skip (us @ t # ts)) = Finished Returned
     \<and> queue_yields (fst (listen cfg sid skip (us @ t # ts)))
       = accepted sid (call_args (fst (listen cfg sid skip (us @ t # ts))))
     \<and> None \<notin> set (yielded (fst (listen cfg sid skip (us @ t # ts))))
     \<and> None \<notin> set (yielded (fst (listen cfg sid skip' ts')))"
proof -
  have stop: "done_flag (deliver sid (arrivals t) st)"
    using signal deliver_terminal_stops [of sid _ _ _ st]
      deliver_waiting_input_stops [of sid _ st]
    by metis
  have "snd (run cfg sid (Suspended p st) (t # ts)) = Finished Returned"
    by (rule run_stops_after_signal)
      (use listening stop calm quiet enough in \<open>simp_all add: deliver_reals\<close>)
  then have fin: "snd (listen cfg sid skip (us @ t # ts)) = Finished Returned"
    using listening(1) by (simp add: listen_append del: run.simps)
  show ?thesis
    using fin listen_order [of cfg sid skip "us @ t # ts"]
      listen_yields [of cfg sid skip "us @ t # ts"] listen_yields [of cfg sid skip' ts']
    by blast
qed

theorem stop_signals_end_without_sentinel_witness:
  "snd (listen \<lparr>check_session_state = False, idle_timeout_s = 5, response_idle_timeout_s = 2\<rparr>
         ''s1'' True
         [\<lparr>arrivals =
             [(SESSION_TEXT, [(''payload'', JDict [(''session_id'', JStr ''s1''),
                  (''data'', JDict [(''content'', JStr ''Hi'')])])]),
              (SESSION_STATE, [(''payload'', JDict [(''session_id'', JStr ''s1''),
                  (''data'', JDict [(''content'', JStr ''task_cancelled'')])])])],
            outcome = Inr JNull, consumer = Next\<rparr>,
          \<lparr>arrivals = [], outcome = Inr JNull, consumer = Next\<rparr>,
          \<lparr>arrivals = [], outcome = Inr JNull, consumer = Next\<rparr>,
          \<lparr>arrivals = [], outcome = Inr JNull, consumer = Next\<rparr>,
          \<lparr>arrivals = [], outcome = Inr JNull, consumer = Next\<rparr>]) = Finished Returned \<and>
   yielded
     (fst (listen \<lparr>check_session_state = False, idle_timeout_s = 5, response_idle_timeout_s = 2\<rparr>
         ''s1'' True
         [\<lparr>arrivals =
             [(SESSION_TEXT, [(''payload'', JDict [(''session_id'', JStr ''s1''),
                  (''data'', JDict [(''content'', JStr ''Hi'')])])]),
              (SESSION_STATE, [(''payload'', JDict [(''session_id'', JStr ''s1''),
                  (''data'', JDict [(''content'', JStr ''task_cancelled'')])])])],
            outcome = Inr JNull, consumer = Next\<rparr>,
          \<lparr>arrivals = [], outcome = Inr JNull, consumer = Next\<rparr>,
          \<lparr>arrivals = [], outcome = Inr JNull, consumer = Next\<rparr>,
          \<lparr>arrivals = [], outcome = Inr JNull, consumer = Next\<rparr>,
          \<lparr>arrivals = [], outcome = Inr JNull, consumer = Next\<rparr>])) =
     [Some \<lparr>type = SESSION_TEXT, session_id = ''s1'', message_id = JNull,
            data = JDict [(''content'', JStr ''Hi'')], metadata = JNull\<rparr>,
      Some \<lparr>type = SESSION_STATE, session_id = ''s1'', message_id = JNull,
            data = JDict [(''content'', JStr ''task_cancelled'')], metadata = JNull\<rparr>] \<and>
   snd (listen \<lparr>check_session_state = False, idle_timeout_s = 5, response_idle_timeout_s = 2\<rparr>
         ''s1'' True
         [\<lparr>arrivals =
             [(SESSION_TEXT, [(''payload'', JDict [(''session_id'', JStr ''s1''),
                  (''data'', JDict [(''content'', JStr ''Hi'')])])])],
            outcome = Inr JNull, consumer = Next\<rparr>,
          \<lparr>arrivals = [], outcome = Inr JNull, consumer = Next\<rparr>,
          \<lparr>arrivals =
             [(SESSION_INPUT_STATE, [(''payload'', JDict [(''session_id'', JStr ''s1''),
                  (''data'', JDict [(''content'', JStr ''waiting_input'')])])])],
            outcome = Inr JNull, consumer = Next\<rparr>,
          \<lparr>arrivals = [], outcome = Inr JNull, consumer = Next\<rparr>,
          \<lparr>arrivals = [], outcome = Inr JNull, consumer = Next\<rparr>,
          \<lparr>arrivals = [], outcome = Inr JNull, consumer = Next\<rparr>]) = Finished Returned \<and>
   yielded
     (fst (listen \<lparr>check_session_state = False, idle_timeout_s = 5, response_idle_timeout_s = 2\<rparr>
         ''s1'' True
         [\<lparr>arrivals =
             [(SESSION_TEXT, [(''payload'', JDict [(''session_id'', JStr ''s1''),
                  (''data'', JDict [(''content'', JStr ''Hi'')])])])],
            outcome = Inr JNull, consumer = Next\<rparr>,
          \<lparr>arrivals = [], outcome = Inr JNull, consumer = Next\<rparr>,
          \<lparr>arrivals =
             [(SESSION_INPUT_STATE, [(''payload'', JDict [(''session_id'', JStr ''s1''),
                  (''data'', JDict [(''content'', JStr ''waiting_input'')])])])],
            outcome = Inr JNull, consumer = Next\<rparr>,
          \<lparr>arrivals = [], outcome = Inr JNull, consumer = Next\<rparr>,
          \<lparr>arrivals = [], outcome = Inr JNull, consumer = Next\<rparr>,
          \<lparr>arrivals = [], outcome = Inr JNull, consumer = Next\<rparr>])) =
     [Some \<lparr>type = SESSION_TEXT, session_id = ''s1'', message_id = JNull,
            data = JDict [(''content'', JStr ''Hi'')], metadata = JNull\<rparr>,
      Some \<lparr>type = SESSION_INPUT_STATE, session_id = ''s1'', message_id = JNull,
            data = JDict [(''content'', JStr ''waiting_input'')], metadata = JNull\<rparr>]"
proof -
  let ?cfg = "\<lparr>check_session_state = False, idle_timeout_s = 5, response_idle_timeout_s = 2\<rparr>"
  let ?text = "[(''payload'', JDict [(''session_id'', JStr ''s1''),
                  (''data'', JDict [(''content'', JStr ''Hi'')])])]"
  let ?state = "[(''payload'', JDict [(''session_id'', JStr ''s1''),
                  (''data'', JDict [(''content'', JStr ''task_cancelled'')])])]"
  let ?input = "[(''payload'', JDict [(''session_id'', JStr ''s1''),
                  (''data'', JDict [(''content'', JStr ''waiting_input'')])])]"
  let ?q = "\<lparr>arrivals = [], outcome = Inr JNull, consumer = Next\<rparr>"
  let ?t1 = "\<lparr>arrivals = [(SESSION_TEXT, ?text), (SESSION_STATE, ?state)],
             outcome = Inr JNull, consumer = Next\<rparr>"
  let ?u = "\<lparr>arrivals = [(SESSION_TEXT, ?text)], outcome = Inr JNull, consumer = Next\<rparr>"
  let ?t2 = "\<lparr>arrivals = [(SESSION_INPUT_STATE, ?input)], outcome = Inr JNull, consumer = Next\<rparr>"
  let ?heard = "\<lparr>queue = [], done_flag = False, received_agent_response = True\<rparr>"
  note evaluate = listen_def activate_eq after_def calls_def loop_top_def drain.simps
    handler_def dict_get_def put_nowait_def on_substantive_def on_input_state_def
    on_session_state_def SUBSTANTIVE_EVENTS_def TERMINAL_STATES_def init_lstate_def
  have acc: "accepts ''s1'' ?text" "accepts ''s1'' ?state" "accepts ''s1'' ?input"
    and tstate: "is_terminal_state ?state" and winput: "is_waiting_input ?input"
    by (simp_all add: notions dict_get_def TERMINAL_STATES_def)
  have l1: "snd (listen ?cfg ''s1'' True []) = Suspended At_wait init_lstate"
    by (simp add: listen_def activate_eq after_def)
  have s1: "(\<exists>pre raw post. arrivals ?t1 = pre @ (SESSION_STATE, raw) # post
          \<and> accepts ''s1'' raw \<and> is_terminal_state raw)
       \<or> (\<exists>pre raw post. arrivals ?t1 = pre @ (SESSION_INPUT_STATE, raw) # post
          \<and> accepts ''s1'' raw \<and> is_waiting_input raw
          \<and> (received_agent_response init_lstate
             \<or> (\<exists>d\<in>set pre. fst d \<in> SUBSTANTIVE_EVENTS \<and> accepts ''s1'' (snd d))))"
    using acc tstate
    by (intro disjI1 exI [of _ "[(SESSION_TEXT, ?text)]"] exI [of _ ?state] exI [of _ "[]"]) simp
  have e1: "length (reals (queue init_lstate)) + length (accepted ''s1'' (arrivals ?t1)) + 2
      \<le> length [?q, ?q, ?q, ?q]"
    using acc by (simp add: accepted_def reals_def)
  have l2: "snd (listen ?cfg ''s1'' True [?u, ?q]) = Suspended At_wait ?heard"
    by (simp add: evaluate)
  have s2: "(\<exists>pre raw post. arrivals ?t2 = pre @ (SESSION_STATE, raw) # post
          \<and> accepts ''s1'' raw \<and> is_terminal_state raw)
       \<or> (\<exists>pre raw post. arrivals ?t2 = pre @ (SESSION_INPUT_STATE, raw) # post
          \<and> accepts ''s1'' raw \<and> is_waiting_input raw
          \<and> (received_agent_response ?heard
             \<or> (\<exists>d\<in>set pre. fst d \<in> SUBSTANTIVE_EVENTS \<and> accepts ''s1'' (snd d))))"
    using acc winput
    by (intro disjI2 exI [of _ "[]"] exI [of _ ?input]) simp
  have e2: "length (reals (queue ?heard)) + length (accepted ''s1'' (arrivals ?t2)) + 2
      \<le> length [?q, ?q, ?q]"
    using acc by (simp add: accepted_def reals_def)
  have calm: "\<not> isl (outcome ?t1)" "consumer ?t1 = Next" "\<not> isl (outcome ?t2)" "consumer ?t2 = Next"
    by simp_all
  have quiet: "\<forall>t'\<in>set [?q, ?q, ?q, ?q]. quiet t'" "\<forall>t'\<in>set [?q, ?q, ?q]. quiet t'"
    by (simp_all add: quiet_def)
  have f1: "snd (listen ?cfg ''s1'' True ([] @ ?t1 # [?q, ?q, ?q, ?q])) = Finished Returned"
    using stop_signals_end_without_sentinel
      [OF l1 _ s1 calm(1,2) quiet(1) e1, of True "[]"]
    by simp
  have f2: "snd (listen ?cfg ''s1'' True ([?u, ?q] @ ?t2 # [?q, ?q, ?q])) = Finished Returned"
    using stop_signals_end_without_sentinel
      [OF l2 _ s2 calm(3,4) quiet(2) e2, of True "[]"]
    by simp
  have y1: "yielded (fst (listen ?cfg ''s1'' True [?t1, ?q, ?q, ?q, ?q]))
      = [Some (event_of ''s1'' SESSION_TEXT ?text), Some (event_of ''s1'' SESSION_STATE ?state)]"
    and y2: "yielded (fst (listen ?cfg ''s1'' True [?u, ?q, ?t2, ?q, ?q, ?q]))
      = [Some (event_of ''s1'' SESSION_TEXT ?text),
         Some (event_of ''s1'' SESSION_INPUT_STATE ?input)]"
    by (simp_all add: evaluate event_of_def payload_of_def)
  show ?thesis
    using f1 f2 y1 y2 by (simp add: event_of_def payload_of_def dict_get_def)
qed

end
